theory Spec2Isabelle
  imports Complex_Main
begin

section \<open>Conventions of the embedding\<close>

text \<open>
  The Python sources are embedded function by function. Python \<open>int\<close> is \<open>int\<close>.
  Python \<open>str\<close> is \<open>string\<close>, a character being a code point below 256 (Latin-1), with
  the white space and the lower case Python gives those code points. Every reading of
  the wall clock (\<open>time.time()\<close>) made during one call of an operation is the parameter
  \<open>now\<close> of that operation. Mutation of objects held in a list is explicit state
  passing: an operation takes the list and returns the new one.

  Python \<open>float\<close> values are reals. Where a float decides which credential \<open>acquire\<close>
  returns (the budget test of \<open>is_available\<close>, the key \<open>health_score\<close> of its \<open>max\<close>, the
  wait it reports), every float operation of the source is followed by a rounding
  \<open>rnd\<close>, a parameter that stands for the rounding of IEEE doubles, and a decimal
  literal \<open>d\<close> of the source is \<open>rnd d\<close>; what is proved there holds for every \<open>rnd\<close>.
  Elsewhere float arithmetic is exact.
\<close>

subsection \<open>Python's \<open>max(xs, key=f)\<close> and \<open>min(xs)\<close>\<close>

text \<open>
  \<open>max\<close> evaluates the key of every item once, in order, and replaces the running best
  only when the new key is strictly greater: the first item with a maximal key wins.
  The items are given here with their keys already computed; \<open>lt a b\<close> is \<open>a < b\<close>.
\<close>

fun max_loop :: "('k \<Rightarrow> 'k \<Rightarrow> bool) \<Rightarrow> 'a \<times> 'k \<Rightarrow> ('a \<times> 'k) list \<Rightarrow> 'a" where
  "max_loop lt best [] = fst best"
| "max_loop lt best (x # xs) = max_loop lt (if lt (snd best) (snd x) then x else best) xs"

section \<open>Credential pool: \<open>core/key_manager.py\<close>\<close>

text \<open>The field \<open>alias\<close> is written \<open>alias_of\<close>.\<close>

record KeyRecord =
  key :: string
  provider :: string
  alias_of :: string
  monthly_budget_usd :: real
  cost_per_1k_input :: real
  cost_per_1k_output :: real
  tokens_in :: int
  tokens_out :: int
  errors_429 :: int
  errors_5xx :: int
  last_used :: real
  cooldown_until :: real
  active :: bool

definition estimated_cost_usd :: "KeyRecord \<Rightarrow> real" where
  "estimated_cost_usd r =
     real_of_int (tokens_in r) / 1000 * cost_per_1k_input r
     + real_of_int (tokens_out r) / 1000 * cost_per_1k_output r"

definition budget_remaining :: "KeyRecord \<Rightarrow> real" where
  "budget_remaining r = max 0 (monthly_budget_usd r - estimated_cost_usd r)"

definition health_score :: "real \<Rightarrow> KeyRecord \<Rightarrow> real" where
  "health_score now r =
     (let error_penalty = real_of_int (errors_429 r * 2 + errors_5xx r) * 0.05;
          budget_factor = min 1 (budget_remaining r / max 0.001 (monthly_budget_usd r));
          recency_boost = (if last_used r = 0 then 0
                           else min 0.05 (1 / max 1 (now - last_used r)))
      in max 0 (budget_factor - error_penalty + recency_boost))"

text \<open>
  The three values above are those of exact arithmetic. In the code each operation on
  floats rounds its result, and a result that is compared decides a branch: with the
  budget 1.0 and 66600 input tokens at 0.015 the doubles give a remaining budget of
  0.001000000000000112, above the threshold, where exact arithmetic gives 0.001, not
  above it. So the tests of \<open>acquire\<close> are embedded with every rounding written out:
  \<open>rnd\<close> is applied to the result of each float operation, in the order the source
  computes (an int operand is first converted, which rounds too), and to each decimal
  literal other than \<open>0.0\<close> and \<open>1.0\<close>. \<open>min\<close> and \<open>max\<close> return one of their
  arguments and do not round.
\<close>

definition estimated_cost_usd_fl :: "(real \<Rightarrow> real) \<Rightarrow> KeyRecord \<Rightarrow> real" where
  "estimated_cost_usd_fl rnd r =
     rnd (rnd (rnd (rnd (real_of_int (tokens_in r)) / rnd 1000) * cost_per_1k_input r)
          + rnd (rnd (rnd (real_of_int (tokens_out r)) / rnd 1000) * cost_per_1k_output r))"

definition budget_remaining_fl :: "(real \<Rightarrow> real) \<Rightarrow> KeyRecord \<Rightarrow> real" where
  "budget_remaining_fl rnd r = max 0 (rnd (monthly_budget_usd r - estimated_cost_usd_fl rnd r))"

definition is_available :: "(real \<Rightarrow> real) \<Rightarrow> real \<Rightarrow> KeyRecord \<Rightarrow> bool" where
  "is_available rnd now r \<longleftrightarrow>
     active r \<and> now \<ge> cooldown_until r \<and> budget_remaining_fl rnd r > rnd 0.001"

definition health_score_fl :: "(real \<Rightarrow> real) \<Rightarrow> real \<Rightarrow> KeyRecord \<Rightarrow> real" where
  "health_score_fl rnd now r =
     (let error_penalty = rnd (rnd (real_of_int (errors_429 r * 2 + errors_5xx r)) * rnd 0.05);
          budget_factor =
            min 1 (rnd (budget_remaining_fl rnd r / max (rnd 0.001) (monthly_budget_usd r)));
          recency_boost = (if last_used r = 0 then 0
                           else min (rnd 0.05) (rnd (1 / max 1 (rnd (now - last_used r)))))
      in max 0 (rnd (rnd (budget_factor - error_penalty) + recency_boost)))"

definition record_usage :: "real \<Rightarrow> int \<Rightarrow> int \<Rightarrow> KeyRecord \<Rightarrow> KeyRecord" where
  "record_usage now ti to r =
     r\<lparr>tokens_in := tokens_in r + ti, tokens_out := tokens_out r + to, last_used := now\<rparr>"

text \<open>
  \<open>2 ** n\<close> for a Python int \<open>n\<close>: an integer power when \<open>n \<ge> 0\<close>, the float
  \<open>1 / 2 ** (-n)\<close> otherwise.
\<close>

definition pow2 :: "int \<Rightarrow> real" where
  "pow2 n = (if 0 \<le> n then 2 ^ nat n else 1 / 2 ^ nat (- n))"

definition record_error :: "real \<Rightarrow> int \<Rightarrow> KeyRecord \<Rightarrow> KeyRecord" where
  "record_error now status r =
     (if status = 429 \<or> status = 529 then
        (let r1 = r\<lparr>errors_429 := errors_429 r + 1\<rparr>;
             backoff = min 300 (30 * pow2 (min (errors_429 r1) 4))
         in r1\<lparr>cooldown_until := now + backoff\<rparr>)
      else if status \<ge> 500 then
        r\<lparr>errors_5xx := errors_5xx r + 1, cooldown_until := now + 15\<rparr>
      else r)"

definition record_success :: "KeyRecord \<Rightarrow> KeyRecord" where
  "record_success r = r\<lparr>errors_429 := max 0 (errors_429 r - 1)\<rparr>"

text \<open>
  The two \<open>RuntimeError\<close>s of \<open>acquire\<close>. \<open>Exhausted w\<close> is "All API keys are
  rate-limited or over budget. Shortest cooldown: ..." with \<open>w = max(0, wait_s)\<close>, the
  number the message formats; \<open>NoneAvailable\<close> is "No API keys are available. ...".
\<close>

datatype pool_error = Exhausted real | NoneAvailable

text \<open>
  \<open>KeyManager._keys\<close> is a \<open>KeyRecord list\<close>. \<open>acquire\<close> assigns to no field; it
  returns its result together with the pool it leaves behind.
\<close>

definition acquire :: "(real \<Rightarrow> real) \<Rightarrow> real \<Rightarrow> KeyRecord list
    \<Rightarrow> (pool_error + KeyRecord) \<times> KeyRecord list" where
  "acquire rnd now keys =
     (let available = filter (is_available rnd now) keys in
      if available = [] then
        (let active_cooldowns =
               map cooldown_until (filter (\<lambda>k. active k \<and> cooldown_until k > now) keys)
         in if active_cooldowns \<noteq> [] then
              (let wait_s = rnd (min_list active_cooldowns - now)
               in (Inl (Exhausted (max 0 wait_s)), keys))
            else (Inl NoneAvailable, keys))
      else
        (let keyed = map (\<lambda>k. (k, health_score_fl rnd now k)) available
         in (Inr (max_loop (<) (hd keyed) (tl keyed)), keys)))"

text \<open>The \<open>for k in self._keys: if k.alias == alias: ...; break\<close> loops.\<close>

fun report_usage :: "real \<Rightarrow> string \<Rightarrow> int \<Rightarrow> int \<Rightarrow> KeyRecord list \<Rightarrow> KeyRecord list" where
  "report_usage now a ti to [] = []"
| "report_usage now a ti to (k # ks) =
     (if alias_of k = a then record_success (record_usage now ti to k) # ks
      else k # report_usage now a ti to ks)"

fun report_error :: "real \<Rightarrow> string \<Rightarrow> int \<Rightarrow> KeyRecord list \<Rightarrow> KeyRecord list" where
  "report_error now a status [] = []"
| "report_error now a status (k # ks) =
     (if alias_of k = a then record_error now status k # ks
      else k # report_error now a status ks)"

section \<open>Prompt evolution: \<open>ape/controller.py\<close>\<close>

datatype py_exn = ValueError string

text \<open>The field \<open>text\<close> is written \<open>text_of\<close>.\<close>

record PromptCandidate =
  prompt_id :: string
  agent_id :: string
  text_of :: string
  wins :: int
  losses :: int
  avg_dmg :: real
  avg_rounds :: real
  generation :: int
  created_at :: real

definition APE_CANDIDATES :: nat where
  "APE_CANDIDATES = 3"

definition win_rate :: "PromptCandidate \<Rightarrow> real" where
  "win_rate c =
     (let total = wins c + losses c
      in if total > 0 then real_of_int (wins c) / real_of_int total else 0.5)"

text \<open>A float that is either finite or \<open>float("inf")\<close>, with the order of \<open><\<close> on floats.\<close>

datatype score = Finite real | PosInf

fun score_lt :: "score \<Rightarrow> score \<Rightarrow> bool" where
  "score_lt (Finite a) (Finite b) = (a < b)"
| "score_lt (Finite a) PosInf = True"
| "score_lt PosInf b = False"

text \<open>
  \<open>math.sqrt\<close> raises \<open>ValueError("math domain error")\<close> on a negative argument;
  \<open>math.log\<close> is only applied to \<open>max(1, total_evals) \<ge> 1\<close>.
\<close>

definition ucb_score :: "int \<Rightarrow> PromptCandidate \<Rightarrow> py_exn + score" where
  "ucb_score total_evals c =
     (let total = wins c + losses c in
      if total = 0 then Inr PosInf
      else
        (let exploit = win_rate c;
             radicand = 2 * ln (real_of_int (max 1 total_evals)) / real_of_int total
         in if radicand < 0 then Inl (ValueError ''math domain error'')
            else
              (let explore = sqrt radicand;
                   dmg_bonus = min 0.15 (avg_dmg c / 600)
               in Inr (Finite (exploit + explore + dmg_bonus)))))"

text \<open>The keys of the items, in order; the first key that raises ends the call.\<close>

fun keyed_by :: "('a \<Rightarrow> 'e + 'k) \<Rightarrow> 'a list \<Rightarrow> 'e + ('a \<times> 'k) list" where
  "keyed_by f [] = Inr []"
| "keyed_by f (x # xs) =
     (case f x of
        Inl e \<Rightarrow> Inl e
      | Inr k \<Rightarrow> (case keyed_by f xs of Inl e \<Rightarrow> Inl e | Inr ps \<Rightarrow> Inr ((x, k) # ps)))"

definition select_ucb1 :: "PromptCandidate list \<Rightarrow> py_exn + PromptCandidate" where
  "select_ucb1 candidates =
     (if candidates = [] then Inl (ValueError ''No prompt candidates available'')
      else
        (let total = sum_list (map (\<lambda>c. wins c + losses c) candidates) in
         case keyed_by (ucb_score total) candidates of
           Inl e \<Rightarrow> Inl e
         | Inr keyed \<Rightarrow> Inr (max_loop score_lt (hd keyed) (tl keyed))))"

subsection \<open>Parsing the variants\<close>

text \<open>
  \<open>str.strip()\<close> and \<open>str.split()\<close> take for white space the characters of
  \<open>str.isspace()\<close>. Below 256 these are tab, line feed, vertical tab, form feed and
  carriage return (9 to 13), the separators \<open>0x1c\<close> to \<open>0x1f\<close> (28 to 31), space (32),
  next line \<open>U+0085\<close> (133) and no-break space \<open>U+00A0\<close> (160).
\<close>

definition is_space :: "char \<Rightarrow> bool" where
  "is_space c \<longleftrightarrow>
     (let n = (of_char c :: nat)
      in (9 \<le> n \<and> n \<le> 13) \<or> (28 \<le> n \<and> n \<le> 32) \<or> n = 133 \<or> n = 160)"

definition strip :: "string \<Rightarrow> string" where
  "strip s = rev (dropWhile is_space (rev (dropWhile is_space s)))"

text \<open>
  \<open>split_at pat s\<close> cuts \<open>s\<close> at the first occurrence of \<open>pat\<close>: the text before it and
  the text after it.
\<close>

fun split_at :: "string \<Rightarrow> string \<Rightarrow> (string \<times> string) option" where
  "split_at pat [] = (if pat = [] then Some ([], []) else None)"
| "split_at pat (c # cs) =
     (if take (length pat) (c # cs) = pat then Some ([], drop (length pat) (c # cs))
      else (case split_at pat cs of None \<Rightarrow> None | Some (b, a) \<Rightarrow> Some (c # b, a)))"

lemma split_at_shorter:
  "split_at pat s = Some (b, a) \<Longrightarrow> pat \<noteq> [] \<Longrightarrow> length a < length s"
  by (induction s arbitrary: b) (auto split: if_splits option.splits)

text \<open>
  \<open>re.findall(r"<VARIANT>(.*?)</VARIANT>", resp, re.DOTALL)\<close>: scanning from the left,
  each match starts at the next opening tag that has a closing tag after it and captures
  the text up to the first such closing tag; the scan resumes after the match.
\<close>

function findall_variant :: "string \<Rightarrow> string list" where
  "findall_variant resp =
     (case split_at ''<VARIANT>'' resp of
        None \<Rightarrow> []
      | Some (before, rest) \<Rightarrow>
          (case split_at ''</VARIANT>'' rest of
             None \<Rightarrow> []
           | Some (body, rest') \<Rightarrow> body # findall_variant rest'))"
  by pat_completeness auto
termination
proof (relation "measure length")
  show "wf (measure length)" by simp
next
  fix resp x2 x y x2a xa ya
  assume "split_at ''<VARIANT>'' resp = Some x2" "(x, y) = x2"
    "split_at ''</VARIANT>'' y = Some x2a" "(xa, ya) = x2a"
  then have "length y < length resp" "length ya < length y"
    using split_at_shorter [of "''<VARIANT>''" resp x y]
      split_at_shorter [of "''</VARIANT>''" y xa ya] by auto
  then show "(ya, resp) \<in> measure length" by simp
qed

text \<open>
  \<open>_generate_variants\<close> from the value of the \<open>chat\<close> call on: \<open>resp\<close> is what the call
  returned, or the exception it raised; any exception gives the empty list.
\<close>

definition generate_variants :: "'e + string \<Rightarrow> nat \<Rightarrow> string list" where
  "generate_variants resp n =
     (case resp of
        Inl e \<Rightarrow> []
      | Inr r \<Rightarrow>
          (let parts = findall_variant r
           in take n (map strip (filter (\<lambda>p. length (strip p) > 80) parts))))"

subsection \<open>Evolution\<close>

text \<open>
  The table \<open>prompt_candidates\<close>, keyed by its primary key \<open>prompt_id\<close>.
  \<open>_save_candidate\<close> inserts the row, or on a conflict of the key overwrites the four
  performance columns only.
\<close>

type_synonym prompt_table = "string \<rightharpoonup> PromptCandidate"

definition save_candidate :: "PromptCandidate \<Rightarrow> prompt_table \<Rightarrow> prompt_table" where
  "save_candidate c tbl =
     (case tbl (prompt_id c) of
        None \<Rightarrow> tbl(prompt_id c \<mapsto> c)
      | Some row \<Rightarrow>
          tbl(prompt_id c \<mapsto>
            row\<lparr>wins := wins c, losses := losses c,
                avg_dmg := avg_dmg c, avg_rounds := avg_rounds c\<rparr>))"

text \<open>Decimal digits of an integer, as \<open>"{}".format\<close> and \<open>"{:d}".format\<close> print it.\<close>

function str_nat :: "nat \<Rightarrow> string" where
  "str_nat n = (if n < 10 then [char_of (48 + n)]
                else str_nat (n div 10) @ [char_of (48 + n mod 10)])"
  by pat_completeness auto
termination
  by (relation "measure id") auto

definition str_int :: "int \<Rightarrow> string" where
  "str_int i = (if i < 0 then CHR ''-'' # str_nat (nat (- i)) else str_nat (nat i))"

text \<open>\<open>int(x)\<close> of a float truncates towards zero.\<close>

definition py_int :: "real \<Rightarrow> int" where
  "py_int x = (if 0 \<le> x then \<lfloor>x\<rfloor> else \<lceil>x\<rceil>)"

text \<open>The fields of \<open>APEController\<close>; its \<open>agent_id\<close> is written \<open>self_agent_id\<close>.\<close>

record APEController =
  self_agent_id :: string
  agent_name :: string
  char_class :: string
  candidates :: "PromptCandidate list"
  current :: "PromptCandidate option"
  games_since_ape :: int

text \<open>\<open>best = max(self._candidates, key=lambda c: c.win_rate())\<close>, on a non-empty pool.\<close>

definition best_by_win_rate :: "PromptCandidate list \<Rightarrow> PromptCandidate" where
  "best_by_win_rate cs =
     (let keyed = map (\<lambda>c. (c, win_rate c)) cs in max_loop (<) (hd keyed) (tl keyed))"

text \<open>\<open>current_gen = max(c.generation for c in self._candidates)\<close>, on a non-empty pool.\<close>

definition max_generation :: "PromptCandidate list \<Rightarrow> int" where
  "max_generation cs = fold max (map generation (tl cs)) (generation (hd cs))"

definition new_candidate :: "string \<Rightarrow> real \<Rightarrow> int \<Rightarrow> nat \<Rightarrow> string \<Rightarrow> PromptCandidate" where
  "new_candidate aid now current_gen i vtext =
     \<lparr>prompt_id = ''ape_'' @ aid @ ''_'' @ str_int (py_int now) @ ''_'' @ str_int (int i),
      agent_id = aid, text_of = vtext, wins = 0, losses = 0, avg_dmg = 0, avg_rounds = 0,
      generation = current_gen + 1, created_at = now\<rparr>"

text \<open>The loop \<open>for i, vtext in enumerate(variants)\<close>: save the candidate, then append it.\<close>

fun spawn_loop :: "string \<Rightarrow> real \<Rightarrow> int \<Rightarrow> nat \<Rightarrow> string list
    \<Rightarrow> PromptCandidate list \<times> prompt_table \<Rightarrow> PromptCandidate list \<times> prompt_table" where
  "spawn_loop aid now current_gen i [] (cs, tbl) = (cs, tbl)"
| "spawn_loop aid now current_gen i (vtext # rest) (cs, tbl) =
     (let c = new_candidate aid now current_gen i vtext
      in spawn_loop aid now current_gen (Suc i) rest (cs @ [c], save_candidate c tbl))"

text \<open>
  \<open>_evolve\<close> up to the end of that loop (lines 242 to 267), on a non-empty pool.
  \<open>resp\<close> is the outcome of the one \<open>chat\<close> call \<open>_generate_variants\<close> makes for the seed
  \<open>best\<close>: the text the model returned, or the exception raised.
\<close>

definition evolve_spawn :: "'e + string \<Rightarrow> real \<Rightarrow> APEController \<times> prompt_table
    \<Rightarrow> APEController \<times> prompt_table" where
  "evolve_spawn resp now st =
     (case st of (self, tbl) \<Rightarrow>
        (let best = best_by_win_rate (candidates self);
             current_gen = max_generation (candidates self);
             variants = generate_variants resp APE_CANDIDATES
         in case spawn_loop (self_agent_id self) now current_gen 0 variants (candidates self, tbl) of
              (cs, tbl') \<Rightarrow> (self\<lparr>candidates := cs\<rparr>, tbl')))"

definition APE_MAX_POOL :: nat where
  "APE_MAX_POOL = 12"

text \<open>
  \<open>list.sort(key=..., reverse=True)\<close> is stable: descending keys, items of equal key in
  their former order.
\<close>

fun insert_desc :: "'a \<times> score \<Rightarrow> ('a \<times> score) list \<Rightarrow> ('a \<times> score) list" where
  "insert_desc x [] = [x]"
| "insert_desc x (y # ys) =
     (if score_lt (snd x) (snd y) then y # insert_desc x ys else x # y # ys)"

definition sort_desc :: "('a \<times> score) list \<Rightarrow> 'a list" where
  "sort_desc keyed = map fst (foldr insert_desc keyed [])"

text \<open>
  \<open>DELETE FROM prompt_candidates WHERE prompt_id = ? AND wins + losses < 2\<close>: the
  counters compared are those of the stored row.
\<close>

definition delete_unproven :: "string \<Rightarrow> prompt_table \<Rightarrow> prompt_table" where
  "delete_unproven pid tbl =
     (case tbl pid of
        None \<Rightarrow> tbl
      | Some row \<Rightarrow> if wins row + losses row < 2 then tbl(pid := None) else tbl)"

text \<open>
  The pruning that ends \<open>_evolve\<close> (lines 269 to 283). An exception raised by a key of
  the sort leaves the pool and the table as they were before the sort.
\<close>

definition evolve_prune :: "APEController \<times> prompt_table
    \<Rightarrow> py_exn option \<times> APEController \<times> prompt_table" where
  "evolve_prune st =
     (case st of (self, tbl) \<Rightarrow>
        if length (candidates self) > APE_MAX_POOL then
          (let total_e = sum_list (map (\<lambda>c. wins c + losses c) (candidates self)) in
           case keyed_by (ucb_score total_e) (candidates self) of
             Inl e \<Rightarrow> (Some e, self, tbl)
           | Inr keyed \<Rightarrow>
               (let sorted = sort_desc keyed;
                    to_prune = drop (APE_MAX_POOL - 2) sorted
                in (None, self\<lparr>candidates := take (APE_MAX_POOL - 2) sorted\<rparr>,
                    fold (\<lambda>c. delete_unproven (prompt_id c)) to_prune tbl)))
        else (None, self, tbl))"

definition evolve :: "'e + string \<Rightarrow> real \<Rightarrow> APEController \<times> prompt_table
    \<Rightarrow> py_exn option \<times> APEController \<times> prompt_table" where
  "evolve resp now st =
     (if candidates (fst st) = [] then (None, st)
      else evolve_prune (evolve_spawn resp now st))"

section \<open>Policy memory: \<open>core/memory.py\<close>\<close>

text \<open>
  An entry of \<open>ucb_stats\<close> is the dict \<open>{"total": ..., "plays": ...}\<close>, its key
  \<open>total\<close> written \<open>total_reward\<close>; \<open>ucb_stats\<close> itself is the list of its items in the
  order of the dict.
\<close>

record ucb_entry =
  total_reward :: real
  plays :: int

type_synonym ucb_stats = "(string \<times> ucb_entry) list"

text \<open>\<open>self.ucb_stats.get(action, {"total": 0.0, "plays": 0})\<close>\<close>

definition stats_get :: "ucb_stats \<Rightarrow> string \<Rightarrow> ucb_entry" where
  "stats_get st action =
     (case map_of st action of Some e \<Rightarrow> e | None \<Rightarrow> \<lparr>total_reward = 0, plays = 0\<rparr>)"

text \<open>The loop \<open>for action in candidates\<close> of \<open>ucb_best_action\<close>.\<close>

fun best_action_loop :: "ucb_stats \<Rightarrow> int \<Rightarrow> real \<Rightarrow> string option \<Rightarrow> string list
    \<Rightarrow> py_exn + string option" where
  "best_action_loop st total_plays best_score best_action [] = Inr best_action"
| "best_action_loop st total_plays best_score best_action (action # rest) =
     (let stats = stats_get st action;
          p = plays stats
      in if p = 0 then Inr (Some action)
         else
           (let avg = total_reward stats / real_of_int p;
                radicand = 2 * ln (real_of_int (max 1 total_plays)) / real_of_int p
            in if radicand < 0 then Inl (ValueError ''math domain error'')
               else
                 (let score = avg + sqrt radicand
                  in if score > best_score
                     then best_action_loop st total_plays score (Some action) rest
                     else best_action_loop st total_plays best_score best_action rest)))"

definition ucb_best_action :: "ucb_stats \<Rightarrow> string list \<Rightarrow> py_exn + string option" where
  "ucb_best_action st cands =
     (if st = [] then Inr None
      else
        (let total_plays = sum_list (map (\<lambda>v. plays v) (map snd st))
         in best_action_loop st total_plays (- 1) None cands))"

section \<open>Hashed embedding: \<open>core/platform_utils.py\<close>\<close>

text \<open>
  \<open>str.lower()\<close>: below 256 the characters it changes are \<open>A\<close> to \<open>Z\<close> (65 to 90) and
  the capitals of Latin-1 (192 to 214 and 216 to 222), each mapped to the code point 32
  above. \<open>str.split()\<close>: the maximal runs of characters that are not white space.
\<close>

definition is_upper :: "char \<Rightarrow> bool" where
  "is_upper c \<longleftrightarrow>
     (let n = (of_char c :: nat)
      in (65 \<le> n \<and> n \<le> 90) \<or> (192 \<le> n \<and> n \<le> 214) \<or> (216 \<le> n \<and> n \<le> 222))"

definition lower_char :: "char \<Rightarrow> char" where
  "lower_char c = (if is_upper c then char_of ((of_char c :: nat) + 32) else c)"

definition lower :: "string \<Rightarrow> string" where
  "lower s = map lower_char s"

fun split_loop :: "string \<Rightarrow> string \<Rightarrow> string list" where
  "split_loop cur [] = (if cur = [] then [] else [cur])"
| "split_loop cur (c # cs) =
     (if is_space c then (if cur = [] then split_loop [] cs else cur # split_loop [] cs)
      else split_loop (cur @ [c]) cs)"

definition split_ws :: "string \<Rightarrow> string list" where
  "split_ws s = split_loop [] s"

text \<open>
  The loop \<open>for i, word in enumerate(words[:64])\<close>. \<open>deterministic_hash\<close> is the MD5
  digest of \<open>hashlib\<close> read as a number; it is the parameter \<open>h\<close>.
\<close>

fun embed_loop :: "(string \<Rightarrow> nat) \<Rightarrow> nat \<Rightarrow> string list \<Rightarrow> real list \<Rightarrow> real list" where
  "embed_loop h i [] vec = vec"
| "embed_loop h i (word # ws) vec =
     (let idx = h word mod 64
      in embed_loop h (Suc i) ws (vec[idx := vec ! idx + 1 / real (i + 1)]))"

definition l2_norm :: "real list \<Rightarrow> real" where
  "l2_norm vec = sqrt (sum_list (map (\<lambda>x. x * x) vec))"

definition embed_text :: "(string \<Rightarrow> nat) \<Rightarrow> string \<Rightarrow> real list" where
  "embed_text h txt =
     (let words = split_ws (lower txt);
          vec = embed_loop h 0 (take 64 words) (replicate 64 0);
          norm = l2_norm vec
      in if norm > 0 then map (\<lambda>x. x / norm) vec else vec)"

section \<open>Resilient call layer: \<open>core/llm_client.py\<close>\<close>

definition MAX_RETRIES :: nat where
  "MAX_RETRIES = 4"

definition BASE_DELAY :: real where
  "BASE_DELAY = 1.2"

text \<open>The fields of \<open>LLMResponse\<close>, each with the prefix \<open>resp\<close>.\<close>

record LLMResponse =
  resp_text :: string
  resp_tokens_in :: int
  resp_tokens_out :: int
  resp_model :: string
  resp_key_alias :: string
  resp_latency_ms :: real

text \<open>
  What one request to the endpoint comes to, as the \<open>try\<close> block sees it:
  \<^item> \<open>Response ti to txt m\<close>: a 2xx reply read to the end, with its token counts, its
    joined and stripped text and its model name;
  \<^item> \<open>BadJson\<close>: \<open>json.loads\<close> raised \<open>JSONDecodeError\<close> (before \<open>report_usage\<close>);
  \<^item> \<open>MissingText ti to\<close>: a text block without \<open>"text"\<close> raised \<open>KeyError\<close> (after
    \<open>report_usage\<close>);
  \<^item> \<open>HTTPError status body\<close>: \<open>urllib.error.HTTPError\<close> with \<open>exc.code = status\<close>, and
    \<open>body\<close> the text \<open>err_body\<close> would be bound to;
  \<^item> \<open>URLError reason\<close>: any other \<open>urllib.error.URLError\<close>.
  Exceptions of other classes are not caught by \<open>chat_full\<close> and are not modelled.
\<close>

datatype outcome =
    Response int int string string
  | BadJson
  | MissingText int int
  | HTTPError int string
  | URLError string

text \<open>The test \<open>status in (429, 529) or status >= 500\<close>.\<close>

definition transient :: "int \<Rightarrow> bool" where
  "transient status \<longleftrightarrow> status = 429 \<or> status = 529 \<or> status \<ge> 500"

text \<open>
  What the world supplies to attempt number \<open>i\<close>: the clock when \<open>acquire\<close> runs, the
  outcome of the request, the clock when the pool is told, the elapsed milliseconds,
  and the value \<open>random.uniform(0.0, 0.8)\<close> returns; and, for all attempts, the
  rounding of the floats of \<open>acquire\<close>.
\<close>

record world =
  rounding :: "real \<Rightarrow> real"
  t_acquire :: "nat \<Rightarrow> real"
  request :: "nat \<Rightarrow> outcome"
  t_report :: "nat \<Rightarrow> real"
  latency :: "nat \<Rightarrow> real"
  jitter :: "nat \<Rightarrow> real"

text \<open>
  The \<open>RuntimeError\<close>s that leave \<open>chat_full\<close>: the one \<open>acquire\<close> raised, "API error
  status: body", "Unexpected API response format", and "API call failed after n
  attempts. Last error: e".
\<close>

datatype call_error =
    PoolError pool_error
  | ApiError int string
  | UnexpectedFormat
  | RetriesFailed nat "outcome option"

text \<open>
  The state the loop changes: the records of the pool, the arguments of every
  \<open>time.sleep\<close> so far, and the attempts whose request was sent so far.
\<close>

record call_state =
  pool :: "KeyRecord list"
  slept :: "real list"
  sent :: "nat list"

text \<open>
  \<open>for attempt in range(MAX_RETRIES)\<close>, from \<open>attempt\<close> on, with the current
  \<open>last_error\<close>. The payload and the headers only shape the request and are left out.
\<close>

function chat_loop :: "world \<Rightarrow> nat \<Rightarrow> outcome option \<Rightarrow> call_state
    \<Rightarrow> (call_error + LLMResponse) \<times> call_state" where
  "chat_loop w attempt last_error s =
     (if attempt \<ge> MAX_RETRIES then (Inl (RetriesFailed MAX_RETRIES last_error), s)
      else
        (case acquire (rounding w) (t_acquire w attempt) (pool s) of
           (Inl e, keys) \<Rightarrow> (Inl (PoolError e), s\<lparr>pool := keys\<rparr>)
         | (Inr key_record, keys) \<Rightarrow>
             (let s1 = s\<lparr>pool := keys, sent := sent s @ [attempt]\<rparr> in
              case request w attempt of
                Response ti to txt m \<Rightarrow>
                  (Inr \<lparr>resp_text = txt, resp_tokens_in = ti, resp_tokens_out = to,
                        resp_model = m, resp_key_alias = alias_of key_record,
                        resp_latency_ms = latency w attempt\<rparr>,
                   s1\<lparr>pool := report_usage (t_report w attempt) (alias_of key_record) ti to (pool s1)\<rparr>)
              | BadJson \<Rightarrow> (Inl UnexpectedFormat, s1)
              | MissingText ti to \<Rightarrow>
                  (Inl UnexpectedFormat,
                   s1\<lparr>pool := report_usage (t_report w attempt) (alias_of key_record) ti to (pool s1)\<rparr>)
              | HTTPError status body \<Rightarrow>
                  (let s2 = s1\<lparr>pool := report_error (t_report w attempt) (alias_of key_record) status (pool s1)\<rparr>
                   in if transient status then
                        (let wait = BASE_DELAY * 2 ^ attempt + jitter w attempt
                         in chat_loop w (Suc attempt) (Some (HTTPError status body))
                              (s2\<lparr>slept := slept s2 @ [wait]\<rparr>))
                      else (Inl (ApiError status body), s2))
              | URLError reason \<Rightarrow>
                  (let s2 = s1\<lparr>pool := report_error (t_report w attempt) (alias_of key_record) 503 (pool s1)\<rparr>
                   in chat_loop w (Suc attempt) (Some (URLError reason))
                        (s2\<lparr>slept := slept s2 @ [BASE_DELAY * 2 ^ attempt]\<rparr>)))))"
  by pat_completeness auto
termination
  by (relation "measure (\<lambda>(w, attempt, last_error, s). MAX_RETRIES - attempt)") auto

definition chat_full :: "world \<Rightarrow> KeyRecord list \<Rightarrow> (call_error + LLMResponse) \<times> call_state" where
  "chat_full w keys = chat_loop w 0 None \<lparr>pool = keys, slept = [], sent = []\<rparr>"

text \<open>
  Two predicates on what a call leaves behind. \<open>slept_for w sl i\<close>: attempt \<open>i\<close> ended
  in a transient HTTP error or in a transport error, and entry \<open>i\<close> of the sleep log
  \<open>sl\<close> is the wait of that attempt. \<open>call_post w (res, s)\<close>: the log has \<open>m \<le> 4\<close>
  such entries, and the call ended in one of five ways at attempt \<open>m\<close>, the second
  being that \<open>acquire\<close> raised there, on the pool as the call leaves it.
\<close>

definition slept_for :: "world \<Rightarrow> real list \<Rightarrow> nat \<Rightarrow> bool" where
  "slept_for w sl i \<longleftrightarrow>
     (\<exists>st b. request w i = HTTPError st b \<and> transient st
        \<and> sl ! i = BASE_DELAY * 2 ^ i + jitter w i)
     \<or> (\<exists>r. request w i = URLError r \<and> sl ! i = BASE_DELAY * 2 ^ i)"

definition call_post :: "world \<Rightarrow> (call_error + LLMResponse) \<times> call_state \<Rightarrow> bool" where
  "call_post w out \<longleftrightarrow>
     (let res = fst out; s = snd out; m = length (slept s) in
      m \<le> 4 \<and> (\<forall>i<m. slept_for w (slept s) i)
      \<and> ((m = 4 \<and> sent s = [0..<4] \<and> res = Inl (RetriesFailed 4 (Some (request w 3))))
         \<or> (m < 4 \<and> sent s = [0..<m]
             \<and> (\<exists>e. res = Inl (PoolError e)
                   \<and> fst (acquire (rounding w) (t_acquire w m) (pool s)) = Inl e))
         \<or> (m < 4 \<and> sent s = [0..<Suc m]
             \<and> (\<exists>st b. request w m = HTTPError st b \<and> \<not> transient st \<and> res = Inl (ApiError st b)))
         \<or> (m < 4 \<and> sent s = [0..<Suc m] \<and> res = Inl UnexpectedFormat
             \<and> (request w m = BadJson \<or> (\<exists>ti to. request w m = MissingText ti to)))
         \<or> (m < 4 \<and> sent s = [0..<Suc m]
             \<and> (\<exists>r ti to txt mdl. res = Inr r \<and> request w m = Response ti to txt mdl))))"

declare chat_loop.simps [simp del] str_nat.simps [simp del] findall_variant.simps [simp del]

section \<open>Concrete inputs\<close>

text \<open>
  The rounding of doubles, for numbers in their normal range: to the nearest multiple
  of \<open>2 ^ (e - 52)\<close>, where \<open>2 ^ e\<close> is the power of two at or below the magnitude,
  a tie going to the even multiple.
\<close>

definition round_even :: "real \<Rightarrow> int" where
  "round_even y =
     (let f = \<lfloor>y\<rfloor> in
      if y - of_int f < 1 / 2 then f
      else if y - of_int f > 1 / 2 then f + 1
      else if even f then f else f + 1)"

definition rne53 :: "real \<Rightarrow> real" where
  "rne53 x =
     (if x = 0 then 0
      else (let e = \<lfloor>log 2 \<bar>x\<bar>\<rfloor>; u = pow2 (e - 52)
            in of_int (round_even (x / u)) * u))"

text \<open>
  The credential of the budget scenario: a budget of 1.00, 60000 input tokens at 0.015
  per thousand, one rate-limit error on record.
\<close>

definition key_a :: KeyRecord where
  "key_a = \<lparr>key = ''sk-a'', provider = ''anthropic'', alias_of = ''primary'',
     monthly_budget_usd = 1, cost_per_1k_input = 0.015, cost_per_1k_output = 0.075,
     tokens_in = 60000, tokens_out = 0, errors_429 = 1, errors_5xx = 0,
     last_used = 0, cooldown_until = 0, active = True\<rparr>"

text \<open>
  The credential at the threshold: a budget of 1.0 and 66600 input tokens, the prices
  being the doubles of 0.015 and 0.075.
\<close>

definition key_r :: KeyRecord where
  "key_r = \<lparr>key = ''sk-r'', provider = ''anthropic'', alias_of = ''primary'',
     monthly_budget_usd = 1, cost_per_1k_input = rne53 0.015, cost_per_1k_output = rne53 0.075,
     tokens_in = 66600, tokens_out = 0, errors_429 = 0, errors_5xx = 0,
     last_used = 0, cooldown_until = 0, active = True\<rparr>"

text \<open>A second credential, never used, with the default budget of 10.00.\<close>

definition key_b :: KeyRecord where
  "key_b = \<lparr>key = ''sk-b'', provider = ''anthropic'', alias_of = ''key_1'',
     monthly_budget_usd = 10, cost_per_1k_input = 0.015, cost_per_1k_output = 0.075,
     tokens_in = 0, tokens_out = 0, errors_429 = 0, errors_5xx = 0,
     last_used = 0, cooldown_until = 0, active = True\<rparr>"

text \<open>
  A pool of three candidates of one agent: the seed after one game won with 20 damage
  in 5 rounds, and two variants never evaluated.
\<close>

definition cand_a :: PromptCandidate where
  "cand_a = \<lparr>prompt_id = ''seed_ag1'', agent_id = ''ag1'', text_of = ''You are Kael.'',
     wins = 1, losses = 0, avg_dmg = 6, avg_rounds = 1.5, generation = 0, created_at = 10\<rparr>"

definition cand_b :: PromptCandidate where
  "cand_b = \<lparr>prompt_id = ''ape_ag1_20_0'', agent_id = ''ag1'', text_of = ''You are Kael, tired.'',
     wins = 0, losses = 0, avg_dmg = 0, avg_rounds = 0, generation = 1, created_at = 20\<rparr>"

definition cand_c :: PromptCandidate where
  "cand_c = \<lparr>prompt_id = ''ape_ag1_20_1'', agent_id = ''ag1'', text_of = ''You are Kael, angry.'',
     wins = 0, losses = 0, avg_dmg = 0, avg_rounds = 0, generation = 1, created_at = 20\<rparr>"

text \<open>A candidate that has won one game out of four.\<close>

definition cand_l :: PromptCandidate where
  "cand_l = \<lparr>prompt_id = ''ape_ag1_15_0'', agent_id = ''ag1'', text_of = ''You are Kael, wary.'',
     wins = 1, losses = 3, avg_dmg = 9, avg_rounds = 4, generation = 1, created_at = 15\<rparr>"

text \<open>
  A controller whose pool is the seed alone, and a reply of the model with three
  variant blocks: one of 81 characters between a no-break space and a blank, one of 5
  characters, and one of 80 characters followed by a no-break space.
\<close>

definition ctl_a :: APEController where
  "ctl_a = \<lparr>self_agent_id = ''ag1'', agent_name = ''Kael'', char_class = ''warrior'',
     candidates = [cand_a], current = Some cand_a, games_since_ape = 0\<rparr>"

definition resp_a :: "unit + string" where
  "resp_a = Inr (''<VARIANT>'' @ [CHR 0xA0] @ replicate 81 (CHR ''x'') @ '' </VARIANT>'' @
                 ''<VARIANT>short</VARIANT>'' @
                 ''<VARIANT>'' @ replicate 80 (CHR ''y'') @ [CHR 0xA0] @ ''</VARIANT>'')"

text \<open>Bandit statistics after three plays of \<open>attack\<close> with a cumulative reward of 1.5.\<close>

definition stats_a :: ucb_stats where
  "stats_a = [(''attack'', \<lparr>total_reward = 1.5, plays = 3\<rparr>)]"

text \<open>
  Two worlds, attempt \<open>i\<close> starting at time \<open>1000 * i\<close> with a jitter of 0.5: one that
  answers every request with 429, one that answers 529 once and 400 from then on. The
  floats are doubles.
\<close>

definition world_429 :: world where
  "world_429 = \<lparr>rounding = rne53, t_acquire = (\<lambda>i. 1000 * real i),
     request = (\<lambda>i. HTTPError 429 ''slow down''),
     t_report = (\<lambda>i. 1000 * real i + 1), latency = (\<lambda>i. 250), jitter = (\<lambda>i. 0.5)\<rparr>"

text \<open>
  A world whose clock is driven by the call alone: attempt \<open>i\<close> starts at time
  \<open>1000 + 2 * i\<close>, a quarter of a second later the endpoint has answered 429, and the
  sleep of 1.7 seconds ends before the next attempt starts.
\<close>

definition world_single :: world where
  "world_single = \<lparr>rounding = rne53, t_acquire = (\<lambda>i. 1000 + 2 * real i),
     request = (\<lambda>i. HTTPError 429 ''slow down''),
     t_report = (\<lambda>i. 1000 + 2 * real i + 0.25), latency = (\<lambda>i. 250), jitter = (\<lambda>i. 0.5)\<rparr>"

definition world_400 :: world where
  "world_400 = \<lparr>rounding = rne53, t_acquire = (\<lambda>i. 1000 * real i),
     request = (\<lambda>i. if i = 0 then HTTPError 529 ''overloaded'' else HTTPError 400 ''bad request''),
     t_report = (\<lambda>i. 1000 * real i + 1), latency = (\<lambda>i. 250), jitter = (\<lambda>i. 0.5)\<rparr>"

section \<open>Credential health\<close>

lemma max0_mono:
  "(a::real) \<le> a' \<Longrightarrow> p' \<le> p \<Longrightarrow> b \<le> b' \<Longrightarrow> max 0 (a - p + b) \<le> max 0 (a' - p' + b')"
  by linarith

lemma health_nonneg: "0 \<le> health_score now r"
  by (simp add: health_score_def Let_def)

lemma health_mono_429:
  "errors_429 r \<le> n \<Longrightarrow> health_score now (r\<lparr>errors_429 := n\<rparr>) \<le> health_score now r"
  unfolding health_score_def Let_def
  by (rule max0_mono) (simp_all add: budget_remaining_def estimated_cost_usd_def)

lemma health_mono_5xx:
  "errors_5xx r \<le> n \<Longrightarrow> health_score now (r\<lparr>errors_5xx := n\<rparr>) \<le> health_score now r"
  unfolding health_score_def Let_def
  by (rule max0_mono) (simp_all add: budget_remaining_def estimated_cost_usd_def)

lemma health_mono_budget:
  assumes "monthly_budget_usd r' = monthly_budget_usd r" "errors_429 r' = errors_429 r"
    "errors_5xx r' = errors_5xx r" "last_used r' = last_used r"
    "budget_remaining r \<le> budget_remaining r'"
  shows "health_score now r \<le> health_score now r'"
proof -
  have "0 < max 0.001 (monthly_budget_usd r)" by simp
  then have "budget_remaining r / max 0.001 (monthly_budget_usd r)
      \<le> budget_remaining r' / max 0.001 (monthly_budget_usd r)"
    using assms(5) by (simp add: divide_right_mono)
  then have "min 1 (budget_remaining r / max 0.001 (monthly_budget_usd r))
      \<le> min 1 (budget_remaining r' / max 0.001 (monthly_budget_usd r))"
    by linarith
  then show ?thesis
    unfolding health_score_def Let_def assms(1-4)
    by (rule max0_mono) simp_all
qed

text \<open>
  Claim C6. At any instant \<open>now\<close>, raising the counter \<open>errors_429\<close> of a credential, or
  its counter \<open>errors_5xx\<close>, with every other field as it was, never raises its
  \<open>health_score\<close>; of two credentials with the same monthly budget, error counters and
  \<open>last_used\<close>, the one with the larger \<open>budget_remaining\<close> has the larger or equal
  \<open>health_score\<close>; and \<open>health_score\<close> is never negative.
\<close>

theorem C6_health_score_monotone:
  "(errors_429 r \<le> n \<longrightarrow> health_score now (r\<lparr>errors_429 := n\<rparr>) \<le> health_score now r)
   \<and> (errors_5xx r \<le> m \<longrightarrow> health_score now (r\<lparr>errors_5xx := m\<rparr>) \<le> health_score now r)
   \<and> (monthly_budget_usd r' = monthly_budget_usd r \<and> errors_429 r' = errors_429 r
        \<and> errors_5xx r' = errors_5xx r \<and> last_used r' = last_used r
        \<and> budget_remaining r \<le> budget_remaining r'
        \<longrightarrow> health_score now r \<le> health_score now r')
   \<and> 0 \<le> health_score now r"
  using health_mono_429 [of r n now] health_mono_5xx [of r m now]
    health_mono_budget [of r' r now] health_nonneg [of now r]
  by blast

text \<open>
  The claim at the credential \<open>key_a\<close> with no error on record, at time 100: one
  rate-limit error takes the score from 0.1 to 0, one server error to 0.05, and with
  20000 tokens used instead of 60000 the score is 0.7.
\<close>

theorem C6_health_score_monotone_witness:
  "errors_429 (key_a\<lparr>errors_429 := 0\<rparr>) \<le> 1
   \<and> health_score 100 (key_a\<lparr>errors_429 := 0\<rparr>\<lparr>errors_429 := 1\<rparr>) \<le> health_score 100 (key_a\<lparr>errors_429 := 0\<rparr>)
   \<and> health_score 100 (key_a\<lparr>errors_429 := 0\<rparr>\<lparr>errors_429 := 1\<rparr>) = 0
   \<and> health_score 100 (key_a\<lparr>errors_429 := 0\<rparr>) = 0.1
   \<and> errors_5xx (key_a\<lparr>errors_429 := 0\<rparr>) \<le> 1
   \<and> health_score 100 (key_a\<lparr>errors_429 := 0\<rparr>\<lparr>errors_5xx := 1\<rparr>) \<le> health_score 100 (key_a\<lparr>errors_429 := 0\<rparr>)
   \<and> health_score 100 (key_a\<lparr>errors_429 := 0\<rparr>\<lparr>errors_5xx := 1\<rparr>) = 0.05
   \<and> budget_remaining (key_a\<lparr>errors_429 := 0\<rparr>) \<le> budget_remaining (key_a\<lparr>errors_429 := 0, tokens_in := 20000\<rparr>)
   \<and> health_score 100 (key_a\<lparr>errors_429 := 0\<rparr>) \<le> health_score 100 (key_a\<lparr>errors_429 := 0, tokens_in := 20000\<rparr>)
   \<and> health_score 100 (key_a\<lparr>errors_429 := 0, tokens_in := 20000\<rparr>) = 0.7"
  using C6_health_score_monotone [of "key_a\<lparr>errors_429 := 0\<rparr>" 1 100 1 "key_a\<lparr>errors_429 := 0, tokens_in := 20000\<rparr>"]
  by (simp add: key_a_def budget_remaining_def estimated_cost_usd_def health_score_def)

section \<open>Cooldown after rate-limit errors\<close>

lemma pow2_powr: "pow2 n = 2 powr (real_of_int n)"
proof (cases "0 \<le> n")
  case True
  then show ?thesis
    by (simp add: pow2_def powr_realpow [symmetric])
next
  case False
  then have "real_of_int n = - real (nat (- n))" by simp
  with False show ?thesis
    by (simp add: pow2_def powr_minus powr_realpow [symmetric] divide_inverse del: of_nat_nat)
qed

lemma pow2_mono: "a \<le> b \<Longrightarrow> pow2 a \<le> pow2 b"
  by (simp add: pow2_powr)

lemma backoff_mono: "a \<le> b \<Longrightarrow> min 300 (30 * pow2 (min a 4)) \<le> min (300::real) (30 * pow2 (min b 4))"
proof -
  assume "a \<le> b"
  then have "pow2 (min a 4) \<le> pow2 (min b 4)" by (intro pow2_mono) simp
  then show ?thesis by linarith
qed

lemma record_error_429:
  "status = 429 \<or> status = 529 \<Longrightarrow>
   record_error now status r =
     r\<lparr>errors_429 := errors_429 r + 1,
       cooldown_until := now + min 300 (30 * pow2 (min (errors_429 r + 1) 4))\<rparr>"
  by (auto simp: record_error_def Let_def)


lemma cooldown_after_429:
  "cooldown_until (record_error t 429 r) - t = min 300 (30 * pow2 (min (errors_429 r + 1) 4))"
  "errors_429 (record_error t 429 r) = errors_429 r + 1"
  by (simp_all add: record_error_429)

text \<open>
  Claim C5. \<open>record_error\<close> with status 429 or 529 adds one to \<open>errors_429\<close> and sets
  \<open>cooldown_until\<close> to \<open>now + min(300, 30 * 2 ** min(n, 4))\<close>, \<open>n\<close> being the counter
  after the increment. Hence over four such calls in a row on one credential, made at
  any times \<open>t1\<close> to \<open>t4\<close>, the values \<open>cooldown_until - now\<close> never decrease and
  never exceed 300; from a counter of 0 they are 60, 120, 240 and 300.
\<close>

theorem C5_rate_limit_backoff:
  "(status = 429 \<or> status = 529 \<longrightarrow>
      record_error now status r =
        r\<lparr>errors_429 := errors_429 r + 1,
          cooldown_until := now + min 300 (30 * pow2 (min (errors_429 r + 1) 4))\<rparr>)
   \<and> (let r1 = record_error t1 429 r; r2 = record_error t2 429 r1;
           r3 = record_error t3 429 r2; r4 = record_error t4 429 r3;
           d1 = cooldown_until r1 - t1; d2 = cooldown_until r2 - t2;
           d3 = cooldown_until r3 - t3; d4 = cooldown_until r4 - t4
       in d1 \<le> d2 \<and> d2 \<le> d3 \<and> d3 \<le> d4 \<and> d4 \<le> 300
          \<and> (errors_429 r = 0 \<longrightarrow> [d1, d2, d3, d4] = [60, 120, 240, 300]))"
proof -
  define B :: "int \<Rightarrow> real" where "B = (\<lambda>e. min 300 (30 * pow2 (min e 4)))"
  have mono: "B a \<le> B b" if "a \<le> b" for a b
    unfolding B_def using that by (rule backoff_mono)
  have cap: "B a \<le> 300" for a
    unfolding B_def by simp
  have d: "cooldown_until (record_error t 429 q) - t = B (errors_429 q + 1)" for t q
    unfolding B_def by (rule cooldown_after_429)
  have e: "errors_429 (record_error t 429 q) = errors_429 q + 1" for t q
    by (rule cooldown_after_429)
  have vals: "B 1 = 60" "B 2 = 120" "B 3 = 240" "B 4 = 300"
    by (simp_all add: B_def pow2_def)
  have first: "status = 429 \<or> status = 529 \<longrightarrow>
      record_error now status r =
        r\<lparr>errors_429 := errors_429 r + 1,
          cooldown_until := now + min 300 (30 * pow2 (min (errors_429 r + 1) 4))\<rparr>"
    using record_error_429 by blast
  have zero: "errors_429 r = 0 \<longrightarrow>
      [B (errors_429 r + 1), B (errors_429 r + 1 + 1), B (errors_429 r + 1 + 1 + 1),
       B (errors_429 r + 1 + 1 + 1 + 1)] = [60, 120, 240, 300]"
    by (simp add: vals)
  show ?thesis
    unfolding Let_def d e
    by (intro conjI first zero mono cap) simp_all
qed

text \<open>The claim at the credential \<open>key_a\<close> with a counter of 0, hit at times 1000 to 1030.\<close>

theorem C5_rate_limit_backoff_witness:
  "((429::int) = 429 \<or> (429::int) = 529)
   \<and> record_error 1000 429 (key_a\<lparr>errors_429 := 0\<rparr>)
       = key_a\<lparr>errors_429 := 1, cooldown_until := 1060\<rparr>
   \<and> errors_429 (key_a\<lparr>errors_429 := 0\<rparr>) = 0
   \<and> [cooldown_until (record_error 1000 429 (key_a\<lparr>errors_429 := 0\<rparr>)) - 1000,
       cooldown_until (record_error 1010 429 (record_error 1000 429 (key_a\<lparr>errors_429 := 0\<rparr>))) - 1010,
       cooldown_until (record_error 1020 429 (record_error 1010 429 (record_error 1000 429
         (key_a\<lparr>errors_429 := 0\<rparr>)))) - 1020,
       cooldown_until (record_error 1030 429 (record_error 1020 429 (record_error 1010 429
         (record_error 1000 429 (key_a\<lparr>errors_429 := 0\<rparr>))))) - 1030]
      = [60, 120, 240, 300]"
proof -
  have e: "errors_429 (key_a\<lparr>errors_429 := 0\<rparr>) = 0" by simp
  have r: "record_error 1000 429 (key_a\<lparr>errors_429 := 0\<rparr>)
        = key_a\<lparr>errors_429 := 1, cooldown_until := 1060\<rparr>"
    by (simp add: record_error_def pow2_def)
  have "[cooldown_until (record_error 1000 429 (key_a\<lparr>errors_429 := 0\<rparr>)) - 1000,
       cooldown_until (record_error 1010 429 (record_error 1000 429 (key_a\<lparr>errors_429 := 0\<rparr>))) - 1010,
       cooldown_until (record_error 1020 429 (record_error 1010 429 (record_error 1000 429
         (key_a\<lparr>errors_429 := 0\<rparr>)))) - 1020,
       cooldown_until (record_error 1030 429 (record_error 1020 429 (record_error 1010 429
         (record_error 1000 429 (key_a\<lparr>errors_429 := 0\<rparr>))))) - 1030]
      = [60, 120, 240, 300]"
    using C5_rate_limit_backoff [of 429 1000 "key_a\<lparr>errors_429 := 0\<rparr>" 1000 1010 1020 1030] e
    unfolding Let_def by blast
  with e r show ?thesis by blast
qed

section \<open>Reports to the pool touch one record\<close>

lemma report_usage_absent:
  "a \<notin> alias_of ` set keys \<Longrightarrow> report_usage now a ti to keys = keys"
  by (induction keys) auto

lemma report_error_absent:
  "a \<notin> alias_of ` set keys \<Longrightarrow> report_error now a status keys = keys"
  by (induction keys) auto

lemma first_match_split:
  "a \<in> alias_of ` set keys \<Longrightarrow>
   \<exists>pre k post. keys = pre @ k # post \<and> a \<notin> alias_of ` set pre \<and> alias_of k = a"
proof (induction keys)
  case Nil
  then show ?case by simp
next
  case (Cons x xs)
  show ?case
  proof (cases "alias_of x = a")
    case True
    then have "x # xs = [] @ x # xs \<and> a \<notin> alias_of ` set [] \<and> alias_of x = a" by simp
    then show ?thesis by blast
  next
    case False
    with Cons obtain pre k post where
      "xs = pre @ k # post" "a \<notin> alias_of ` set pre" "alias_of k = a" by auto
    with False have "x # xs = (x # pre) @ k # post \<and> a \<notin> alias_of ` set (x # pre) \<and> alias_of k = a"
      by auto
    then show ?thesis by blast
  qed
qed

lemma report_usage_at_first:
  "a \<notin> alias_of ` set pre \<Longrightarrow> alias_of k = a \<Longrightarrow>
   report_usage now a ti to (pre @ k # post) = pre @ record_success (record_usage now ti to k) # post"
  by (induction pre) auto

lemma report_error_at_first:
  "a \<notin> alias_of ` set pre \<Longrightarrow> alias_of k = a \<Longrightarrow>
   report_error now a status (pre @ k # post) = pre @ record_error now status k # post"
  by (induction pre) auto

text \<open>
  Claim C9. When no record of the pool has the alias, \<open>report_usage\<close> and
  \<open>report_error\<close> return the pool as it was. When some record has it, the pool is
  \<open>pre @ k # post\<close> with \<open>k\<close> the first record of that alias, and each operation
  replaces \<open>k\<close> alone (by \<open>record_success (record_usage ... k)\<close>, by
  \<open>record_error ... k\<close>); the records of \<open>pre\<close> and \<open>post\<close> are unchanged.
\<close>

theorem C9_report_frame:
  "(a \<notin> alias_of ` set keys \<longrightarrow>
      report_usage now a ti to keys = keys \<and> report_error now a status keys = keys)
   \<and> (a \<in> alias_of ` set keys \<longrightarrow>
      (\<exists>pre k post. keys = pre @ k # post \<and> a \<notin> alias_of ` set pre \<and> alias_of k = a
         \<and> report_usage now a ti to keys = pre @ record_success (record_usage now ti to k) # post
         \<and> report_error now a status keys = pre @ record_error now status k # post))"
proof (intro conjI impI)
  assume "a \<notin> alias_of ` set keys"
  then show "report_usage now a ti to keys = keys" by (rule report_usage_absent)
next
  assume "a \<notin> alias_of ` set keys"
  then show "report_error now a status keys = keys" by (rule report_error_absent)
next
  assume "a \<in> alias_of ` set keys"
  then obtain pre k post where
    s: "keys = pre @ k # post" "a \<notin> alias_of ` set pre" "alias_of k = a"
    using first_match_split by blast
  then have "report_usage now a ti to keys = pre @ record_success (record_usage now ti to k) # post"
    "report_error now a status keys = pre @ record_error now status k # post"
    by (simp_all add: report_usage_at_first report_error_at_first)
  with s show "\<exists>pre k post. keys = pre @ k # post \<and> a \<notin> alias_of ` set pre \<and> alias_of k = a
         \<and> report_usage now a ti to keys = pre @ record_success (record_usage now ti to k) # post
         \<and> report_error now a status keys = pre @ record_error now status k # post"
    by blast
qed

text \<open>
  The claim on the pool \<open>[key_a, key_b, key_b]\<close>: the alias \<open>nobody\<close> changes nothing,
  the alias \<open>key_1\<close> changes the first of the two records that have it.
\<close>

theorem C9_report_frame_witness:
  "''nobody'' \<notin> alias_of ` set [key_a, key_b, key_b]
   \<and> report_usage 50 ''nobody'' 10 20 [key_a, key_b, key_b] = [key_a, key_b, key_b]
   \<and> report_error 50 ''nobody'' 429 [key_a, key_b, key_b] = [key_a, key_b, key_b]
   \<and> ''key_1'' \<in> alias_of ` set [key_a, key_b, key_b]
   \<and> report_usage 50 ''key_1'' 10 20 [key_a, key_b, key_b]
       = [key_a, key_b\<lparr>tokens_in := 10, tokens_out := 20, last_used := 50\<rparr>, key_b]
   \<and> report_error 50 ''key_1'' 429 [key_a, key_b, key_b]
       = [key_a, key_b\<lparr>errors_429 := 1, cooldown_until := 110\<rparr>, key_b]"
proof -
  have n: "''nobody'' \<notin> alias_of ` set [key_a, key_b, key_b]"
    and y: "''key_1'' \<in> alias_of ` set [key_a, key_b, key_b]"
    by (simp_all add: key_a_def key_b_def)
  from n C9_report_frame [of "''nobody''" "[key_a, key_b, key_b]" 50 10 20 429]
  have 1: "report_usage 50 ''nobody'' 10 20 [key_a, key_b, key_b] = [key_a, key_b, key_b]"
    "report_error 50 ''nobody'' 429 [key_a, key_b, key_b] = [key_a, key_b, key_b]"
    by blast+
  from y C9_report_frame [of "''key_1''" "[key_a, key_b, key_b]" 50 10 20 429]
  obtain pre k post where s: "[key_a, key_b, key_b] = pre @ k # post"
    "''key_1'' \<notin> alias_of ` set pre" "alias_of k = ''key_1''"
    "report_usage 50 ''key_1'' 10 20 [key_a, key_b, key_b]
       = pre @ record_success (record_usage 50 10 20 k) # post"
    "report_error 50 ''key_1'' 429 [key_a, key_b, key_b] = pre @ record_error 50 429 k # post"
    by blast
  have a: "alias_of key_a \<noteq> ''key_1''" "alias_of key_b = ''key_1''"
    by (simp_all add: key_a_def key_b_def)
  from s(1-3) a have "pre = [key_a] \<and> k = key_b \<and> post = [key_b]"
    by (cases pre; cases "tl pre") auto
  with s(4,5) have 2: "report_usage 50 ''key_1'' 10 20 [key_a, key_b, key_b]
       = [key_a, key_b\<lparr>tokens_in := 10, tokens_out := 20, last_used := 50\<rparr>, key_b]"
    "report_error 50 ''key_1'' 429 [key_a, key_b, key_b]
       = [key_a, key_b\<lparr>errors_429 := 1, cooldown_until := 110\<rparr>, key_b]"
    by (simp_all add: key_b_def record_success_def record_usage_def record_error_def pow2_def)
  from n y 1 2 show ?thesis by blast
qed

section \<open>The first maximum of \<open>max\<close>\<close>

text \<open>
  For a comparison \<open>lt\<close> that is transitive and total in the sense of the two premises,
  \<open>max_loop\<close> returns the first item whose key is maximal: every earlier key is
  strictly smaller, no later key is greater.
\<close>

lemma max_loop_first:
  assumes tr: "\<And>a b c. lt a b \<Longrightarrow> lt b c \<Longrightarrow> lt a c"
    and tot: "\<And>a b c. \<not> lt a b \<Longrightarrow> lt a c \<Longrightarrow> lt b c"
  shows "\<exists>pre m post. best # xs = pre @ m # post \<and> max_loop lt best xs = fst m
           \<and> (\<forall>p\<in>set pre. lt (snd p) (snd m)) \<and> (\<forall>q\<in>set post. \<not> lt (snd m) (snd q))"
proof (induction xs arbitrary: best)
  case Nil
  have "[best] = [] @ best # []" "max_loop lt best [] = fst best"
    "\<forall>p\<in>set []. lt (snd p) (snd best)" "\<forall>q\<in>set []. \<not> lt (snd best) (snd q)"
    by simp_all
  then show ?case by blast
next
  case (Cons x xs)
  show ?case
  proof (cases "lt (snd best) (snd x)")
    case True
    from Cons [of x] obtain pre m post where
      s: "x # xs = pre @ m # post" "max_loop lt x xs = fst m"
        "\<forall>p\<in>set pre. lt (snd p) (snd m)" "\<forall>q\<in>set post. \<not> lt (snd m) (snd q)"
      by blast
    have bm: "lt (snd best) (snd m)"
    proof (cases pre)
      case Nil
      with s(1) True show ?thesis by simp
    next
      case (Cons y ys)
      with s(1) have "x \<in> set pre" by simp
      with s(3) True show ?thesis using tr by blast
    qed
    have 1: "max_loop lt best (x # xs) = fst m"
      using True s(2) by simp
    have 2: "best # x # xs = (best # pre) @ m # post"
      using s(1) by simp
    have 3: "\<forall>p\<in>set (best # pre). lt (snd p) (snd m)"
      using bm s(3) by simp
    from 1 2 3 s(4) show ?thesis by blast
  next
    case False
    from Cons [of best] obtain pre m post where
      s: "best # xs = pre @ m # post" "max_loop lt best xs = fst m"
        "\<forall>p\<in>set pre. lt (snd p) (snd m)" "\<forall>q\<in>set post. \<not> lt (snd m) (snd q)"
      by blast
    have r: "max_loop lt best (x # xs) = fst m"
      using False s(2) by simp
    show ?thesis
    proof (cases pre)
      case Nil
      with s(1) have mb: "m = best" "xs = post" by simp_all
      have 2: "best # x # xs = [] @ m # (x # post)"
        using mb by simp
      have 3: "\<forall>p\<in>set []. lt (snd p) (snd m)" by simp
      have 4: "\<forall>q\<in>set (x # post). \<not> lt (snd m) (snd q)"
        using s(4) False mb(1) by simp
      from r 2 3 4 show ?thesis by blast
    next
      case (Cons y ys)
      with s(1) have y: "y = best" "xs = ys @ m # post" by simp_all
      with s(3) Cons have "lt (snd best) (snd m)" by simp
      with False have xm: "lt (snd x) (snd m)" using tot by blast
      have 2: "best # x # xs = (best # x # ys) @ m # post"
        using y(2) by simp
      have 3: "\<forall>p\<in>set (best # x # ys). lt (snd p) (snd m)"
        using s(3) Cons y(1) xm by simp
      from r 2 3 s(4) show ?thesis by blast
    qed
  qed
qed

text \<open>The same for items keyed by a function \<open>f\<close>, as \<open>max(xs, key=f)\<close> has them.\<close>

lemma max_loop_keyed:
  assumes tr: "\<And>a b c. lt a b \<Longrightarrow> lt b c \<Longrightarrow> lt a c"
    and tot: "\<And>a b c. \<not> lt a b \<Longrightarrow> lt a c \<Longrightarrow> lt b c"
    and ne: "xs \<noteq> []"
  shows "\<exists>pre m post. xs = pre @ m # post
           \<and> max_loop lt (hd (map (\<lambda>x. (x, f x)) xs)) (tl (map (\<lambda>x. (x, f x)) xs)) = m
           \<and> (\<forall>p\<in>set pre. lt (f p) (f m)) \<and> (\<forall>q\<in>set post. \<not> lt (f m) (f q))"
proof -
  let ?g = "\<lambda>x. (x, f x)"
  let ?k = "map ?g xs"
  from ne have k: "hd ?k # tl ?k = ?k" by simp
  have "\<exists>pre m post. hd ?k # tl ?k = pre @ m # post \<and> max_loop lt (hd ?k) (tl ?k) = fst m
           \<and> (\<forall>p\<in>set pre. lt (snd p) (snd m)) \<and> (\<forall>q\<in>set post. \<not> lt (snd m) (snd q))"
    using tr tot by (rule max_loop_first)
  then obtain pre m post where
    s: "hd ?k # tl ?k = pre @ m # post" "max_loop lt (hd ?k) (tl ?k) = fst m"
      "\<forall>p\<in>set pre. lt (snd p) (snd m)" "\<forall>q\<in>set post. \<not> lt (snd m) (snd q)"
    by (elim exE conjE)
  from s(1) k have "?k = pre @ m # post" by simp
  then have "\<exists>us vs. xs = us @ vs \<and> pre = map ?g us \<and> m # post = map ?g vs"
    by (simp only: map_eq_append_conv)
  then obtain us vs where u: "xs = us @ vs" "pre = map ?g us" "m # post = map ?g vs"
    by (elim exE conjE)
  from u(3) obtain v ws where v: "vs = v # ws" "m = ?g v" "post = map ?g ws"
    by (cases vs) auto
  have 1: "xs = us @ v # ws" using u(1) v(1) by simp
  have 2: "max_loop lt (hd ?k) (tl ?k) = v" using s(2) v(2) by simp
  have 3: "\<forall>p\<in>set us. lt (f p) (f v)" using s(3) u(2) v(2) by simp
  have 4: "\<forall>q\<in>set ws. \<not> lt (f v) (f q)" using s(4) v(2,3) by simp
  show ?thesis
    by (rule exI [of _ us], rule exI [of _ v], rule exI [of _ ws]) (intro conjI 1 2 3 4)
qed

section \<open>Rounding to doubles at given numbers\<close>

text \<open>
  For a number between \<open>2 ^ e\<close> and \<open>2 ^ (e + 1)\<close>, \<open>rne53\<close> rounds to a multiple of
  \<open>2 ^ (e - 52)\<close>.
\<close>

lemma rne53_eval:
  assumes "x \<noteq> 0" "pow2 e \<le> \<bar>x\<bar>" "\<bar>x\<bar> < pow2 (e + 1)"
  shows "rne53 x = of_int (round_even (x / pow2 (e - 52))) * pow2 (e - 52)"
proof -
  from assms(1) have pos: "0 < \<bar>x\<bar>" by simp
  have "2 powr (of_int e) \<le> \<bar>x\<bar>" "\<bar>x\<bar> < 2 powr (of_int (e + 1))"
    using assms(2,3) by (simp_all only: pow2_powr)
  then have "of_int e \<le> log 2 \<bar>x\<bar>" "log 2 \<bar>x\<bar> < of_int (e + 1)"
    using pos by (simp_all add: le_log_iff log_less_iff)
  then have "\<lfloor>log 2 \<bar>x\<bar>\<rfloor> = e"
    by (simp add: floor_eq_iff)
  with assms(1) show ?thesis by (simp add: rne53_def Let_def)
qed

lemma rne53_zero: "rne53 0 = 0"
  by (simp add: rne53_def)

lemma rne53_ten: "rne53 10 = 10"
  using rne53_eval [of 10 3] by (simp add: pow2_def round_even_def Let_def)

lemma rne53_thousand: "rne53 1000 = 1000"
  using rne53_eval [of 1000 9] by (simp add: pow2_def round_even_def Let_def)

lemma rne53_tokens: "rne53 66600 = 66600"
  using rne53_eval [of 66600 16] by (simp add: pow2_def round_even_def Let_def)

lemma rne53_threshold: "rne53 (1 / 1000) = 1152921504606847 / 1152921504606846976"
  using rne53_eval [of "1 / 1000" "-10"] by (simp add: pow2_def round_even_def Let_def)

lemma rne53_price: "rne53 (3 / 200) = 1080863910568919 / 72057594037927936"
  using rne53_eval [of "3 / 200" "-7"] by (simp add: pow2_def round_even_def Let_def)

lemma rne53_thousands: "rne53 (333 / 5) = 2343279181116211 / 35184372088832"
  using rne53_eval [of "333 / 5" 6] by (simp add: pow2_def round_even_def Let_def)

lemma rne53_cost:
  "rne53 (2343279181116211 / 35184372088832 * (1080863910568919 / 72057594037927936))
   = 4499096027743125 / 4503599627370496"
  using rne53_eval [of "2343279181116211 / 35184372088832 * (1080863910568919 / 72057594037927936)" "-1"]
  by (simp add: pow2_def round_even_def Let_def)

lemma rne53_cost_exact:
  "rne53 (4499096027743125 / 4503599627370496) = 4499096027743125 / 4503599627370496"
  using rne53_eval [of "4499096027743125 / 4503599627370496" "-1"]
  by (simp add: pow2_def round_even_def Let_def)

lemma rne53_rest:
  "rne53 (4503599627371 / 4503599627370496) = 4503599627371 / 4503599627370496"
  using rne53_eval [of "4503599627371 / 4503599627370496" "-10"]
  by (simp add: pow2_def round_even_def Let_def)

lemma rne53_wait: "rne53 (233 / 4) = 233 / 4"
  using rne53_eval [of "233 / 4" 5] by (simp add: pow2_def round_even_def Let_def)

text \<open>
  In doubles the credential \<open>key_r\<close> has spent 0.9989999999999999 and keeps
  0.001000000000000112 of its budget, above the double of 0.001.
\<close>

lemma key_r_budget:
  "estimated_cost_usd_fl rne53 key_r = 4499096027743125 / 4503599627370496"
  "budget_remaining_fl rne53 key_r = 4503599627371 / 4503599627370496"
proof -
  have 1: "rne53 (rne53 (real_of_int (tokens_in key_r)) / rne53 1000)
      = 2343279181116211 / 35184372088832"
    by (simp add: key_r_def rne53_tokens rne53_thousand rne53_thousands)
  have 2: "cost_per_1k_input key_r = 1080863910568919 / 72057594037927936"
    by (simp add: key_r_def rne53_price)
  have 3: "rne53 (rne53 (rne53 (real_of_int (tokens_out key_r)) / rne53 1000)
      * cost_per_1k_output key_r) = 0"
    by (simp add: key_r_def rne53_zero)
  have 4: "rne53 (4499096027743125 / 4503599627370496 + 0) = 4499096027743125 / 4503599627370496"
    by (simp add: rne53_cost_exact)
  show c: "estimated_cost_usd_fl rne53 key_r = 4499096027743125 / 4503599627370496"
    by (simp only: estimated_cost_usd_fl_def 1 2 3 rne53_cost 4)
  have 5: "monthly_budget_usd key_r - estimated_cost_usd_fl rne53 key_r
      = 4503599627371 / 4503599627370496"
    unfolding c by (simp add: key_r_def)
  have 6: "max 0 (4503599627371 / 4503599627370496 :: real) = 4503599627371 / 4503599627370496"
    by simp
  show "budget_remaining_fl rne53 key_r = 4503599627371 / 4503599627370496"
    by (simp only: budget_remaining_fl_def 5 rne53_rest 6)
qed

text \<open>A credential that has used no token keeps its budget of 10.\<close>

lemma unused_budget:
  assumes "tokens_in k = 0" "tokens_out k = 0" "monthly_budget_usd k = 10"
  shows "budget_remaining_fl rne53 k = 10"
  using assms
  by (simp add: budget_remaining_fl_def estimated_cost_usd_fl_def rne53_zero rne53_ten)

lemma unused_available:
  assumes "tokens_in k = 0" "tokens_out k = 0" "monthly_budget_usd k = 10"
  shows "is_available rne53 now k \<longleftrightarrow> active k \<and> cooldown_until k \<le> now"
  by (simp add: is_available_def unused_budget [OF assms] rne53_threshold)

text \<open>With exact arithmetic the rounded values are the exact ones.\<close>

lemma exact_arithmetic:
  "estimated_cost_usd_fl (\<lambda>x. x) r = estimated_cost_usd r"
  "budget_remaining_fl (\<lambda>x. x) r = budget_remaining r"
  "health_score_fl (\<lambda>x. x) now r = health_score now r"
  by (simp_all add: estimated_cost_usd_fl_def estimated_cost_usd_def budget_remaining_fl_def
      budget_remaining_def health_score_fl_def health_score_def)

section \<open>Acquiring a credential\<close>

lemma acquire_pool: "snd (acquire rnd now keys) = keys"
  by (simp add: acquire_def Let_def)

lemma acquire_available:
  assumes "filter (is_available rnd now) keys \<noteq> []"
  shows "\<exists>pre k post. filter (is_available rnd now) keys = pre @ k # post
           \<and> fst (acquire rnd now keys) = Inr k
           \<and> (\<forall>p\<in>set pre. health_score_fl rnd now p < health_score_fl rnd now k)
           \<and> (\<forall>q\<in>set post. health_score_fl rnd now q \<le> health_score_fl rnd now k)"
proof -
  let ?av = "filter (is_available rnd now) keys"
  have "\<exists>pre m post. ?av = pre @ m # post
           \<and> max_loop (<) (hd (map (\<lambda>x. (x, health_score_fl rnd now x)) ?av))
                (tl (map (\<lambda>x. (x, health_score_fl rnd now x)) ?av)) = m
           \<and> (\<forall>p\<in>set pre. health_score_fl rnd now p < health_score_fl rnd now m)
           \<and> (\<forall>q\<in>set post. \<not> health_score_fl rnd now m < health_score_fl rnd now q)"
    by (rule max_loop_keyed) (use assms in auto)
  then obtain pre m post where
    s: "?av = pre @ m # post"
      "max_loop (<) (hd (map (\<lambda>x. (x, health_score_fl rnd now x)) ?av))
                (tl (map (\<lambda>x. (x, health_score_fl rnd now x)) ?av)) = m"
      "\<forall>p\<in>set pre. health_score_fl rnd now p < health_score_fl rnd now m"
      "\<forall>q\<in>set post. \<not> health_score_fl rnd now m < health_score_fl rnd now q"
    by (elim exE conjE)
  have 2: "fst (acquire rnd now keys) = Inr m"
    using assms s(2) by (simp add: acquire_def Let_def)
  have 4: "\<forall>q\<in>set post. health_score_fl rnd now q \<le> health_score_fl rnd now m"
    using s(4) by (simp add: not_less)
  show ?thesis
    by (rule exI [of _ pre], rule exI [of _ m], rule exI [of _ post]) (intro conjI s(1) 2 s(3) 4)
qed

lemma acquire_exhausted:
  assumes none: "filter (is_available rnd now) keys = []"
    and cooling: "\<exists>k\<in>set keys. active k \<and> now < cooldown_until k"
  shows "\<exists>k\<in>set keys. active k \<and> now < cooldown_until k
           \<and> (\<forall>k'\<in>set keys. active k' \<and> now < cooldown_until k'
                 \<longrightarrow> cooldown_until k \<le> cooldown_until k')
           \<and> fst (acquire rnd now keys) = Inl (Exhausted (max 0 (rnd (cooldown_until k - now))))"
proof -
  let ?cool = "filter (\<lambda>k. active k \<and> cooldown_until k > now) keys"
  let ?cds = "map cooldown_until ?cool"
  from cooling have ne: "?cds \<noteq> []"
    by (simp add: filter_empty_conv)
  then have m: "min_list ?cds = Min (set ?cds)"
    by (rule min_list_Min)
  from ne have "set ?cds \<noteq> {}"
    by (simp only: set_empty not_False_eq_True)
  then have "Min (set ?cds) \<in> set ?cds"
    by (rule Min_in [OF finite_set])
  then obtain k where k: "k \<in> set ?cool" "cooldown_until k = Min (set ?cds)"
    by auto
  have least: "cooldown_until k \<le> cooldown_until k'"
    if "k' \<in> set keys" "active k'" "now < cooldown_until k'" for k'
  proof -
    from that have "cooldown_until k' \<in> set ?cds" by simp
    then have "Min (set ?cds) \<le> cooldown_until k'" by (intro Min_le) simp_all
    with k(2) show ?thesis by simp
  qed
  from k(1) have kk: "k \<in> set keys" "active k" "now < cooldown_until k" by simp_all
  have "fst (acquire rnd now keys) = Inl (Exhausted (max 0 (rnd (min_list ?cds - now))))"
    using none ne by (simp add: acquire_def Let_def)
  also have "min_list ?cds = cooldown_until k"
    using m k(2) by simp
  finally have "fst (acquire rnd now keys) = Inl (Exhausted (max 0 (rnd (cooldown_until k - now))))" .
  with kk least show ?thesis by blast
qed

lemma acquire_none:
  assumes "filter (is_available rnd now) keys = []"
    and "\<not> (\<exists>k\<in>set keys. active k \<and> now < cooldown_until k)"
  shows "fst (acquire rnd now keys) = Inl NoneAvailable"
proof -
  from assms(2) have "filter (\<lambda>k. active k \<and> cooldown_until k > now) keys = []"
    by (simp add: filter_empty_conv)
  with assms(1) show ?thesis by (simp add: acquire_def Let_def)
qed

text \<open>The pool of one credential.\<close>

lemma acquire_single:
  "is_available rnd now k \<Longrightarrow> acquire rnd now [k] = (Inr k, [k])"
  "\<not> is_available rnd now k \<Longrightarrow> active k \<Longrightarrow> now < cooldown_until k \<Longrightarrow>
   acquire rnd now [k] = (Inl (Exhausted (max 0 (rnd (cooldown_until k - now)))), [k])"
  by (simp_all add: acquire_def)

text \<open>
  Claim C3. Every float operation of \<open>acquire\<close> rounded by \<open>rnd\<close>, whatever \<open>rnd\<close> is:
  at the instant \<open>now\<close>, a credential is available when it is active, its cooldown is
  over and its remaining budget, as the floats give it, is above the float 0.001;
  \<open>acquire\<close> works on the available credentials of the pool, in pool order. When there
  is none: if some active credential is still cooling down, it fails with \<open>Exhausted\<close>,
  carrying \<open>max(0, wait_s)\<close> for the remaining cooldown \<open>wait_s\<close> of the active
  credential whose cooldown ends first; otherwise it fails with \<open>NoneAvailable\<close>. When
  there is one, it returns an available credential whose \<open>health_score\<close> no other
  available one exceeds (the first such in pool order). In every case the pool is left
  as it was.
\<close>

theorem C3_acquire:
  "(\<forall>k. is_available rnd now k \<longleftrightarrow>
         active k \<and> cooldown_until k \<le> now \<and> rnd 0.001 < budget_remaining_fl rnd k)
   \<and> (filter (is_available rnd now) keys = [] \<and> (\<exists>k\<in>set keys. active k \<and> now < cooldown_until k)
        \<longrightarrow> (\<exists>k\<in>set keys. active k \<and> now < cooldown_until k
               \<and> (\<forall>k'\<in>set keys. active k' \<and> now < cooldown_until k'
                     \<longrightarrow> cooldown_until k \<le> cooldown_until k')
               \<and> fst (acquire rnd now keys)
                   = Inl (Exhausted (max 0 (rnd (cooldown_until k - now))))))
   \<and> (filter (is_available rnd now) keys = []
        \<and> \<not> (\<exists>k\<in>set keys. active k \<and> now < cooldown_until k)
        \<longrightarrow> fst (acquire rnd now keys) = Inl NoneAvailable)
   \<and> (filter (is_available rnd now) keys \<noteq> []
        \<longrightarrow> (\<exists>pre k post. filter (is_available rnd now) keys = pre @ k # post
               \<and> fst (acquire rnd now keys) = Inr k
               \<and> (\<forall>p\<in>set pre. health_score_fl rnd now p < health_score_fl rnd now k)
               \<and> (\<forall>q\<in>set post. health_score_fl rnd now q \<le> health_score_fl rnd now k)))
   \<and> snd (acquire rnd now keys) = keys"
proof (intro conjI allI impI)
  fix k
  show "is_available rnd now k \<longleftrightarrow>
         active k \<and> cooldown_until k \<le> now \<and> rnd 0.001 < budget_remaining_fl rnd k"
    by (simp add: is_available_def)
next
  assume "filter (is_available rnd now) keys = [] \<and> (\<exists>k\<in>set keys. active k \<and> now < cooldown_until k)"
  then show "\<exists>k\<in>set keys. active k \<and> now < cooldown_until k
               \<and> (\<forall>k'\<in>set keys. active k' \<and> now < cooldown_until k'
                     \<longrightarrow> cooldown_until k \<le> cooldown_until k')
               \<and> fst (acquire rnd now keys)
                   = Inl (Exhausted (max 0 (rnd (cooldown_until k - now))))"
    using acquire_exhausted by blast
next
  assume "filter (is_available rnd now) keys = []
        \<and> \<not> (\<exists>k\<in>set keys. active k \<and> now < cooldown_until k)"
  then show "fst (acquire rnd now keys) = Inl NoneAvailable"
    using acquire_none by blast
next
  assume "filter (is_available rnd now) keys \<noteq> []"
  then show "\<exists>pre k post. filter (is_available rnd now) keys = pre @ k # post
               \<and> fst (acquire rnd now keys) = Inr k
               \<and> (\<forall>p\<in>set pre. health_score_fl rnd now p < health_score_fl rnd now k)
               \<and> (\<forall>q\<in>set post. health_score_fl rnd now q \<le> health_score_fl rnd now k)"
    by (rule acquire_available)
next
  show "snd (acquire rnd now keys) = keys" by (rule acquire_pool)
qed

text \<open>
  The claim at time 100. In exact arithmetic, on three pools: both credentials cooling
  down (until 160 and until 130); one credential switched off; both credentials
  available, \<open>key_a\<close> with health 0 and \<open>key_b\<close> with health 1. In doubles, on the pool
  of \<open>key_r\<close> alone: 0.001000000000000112 of its budget remains, it is available and is
  returned, whereas in exact arithmetic exactly 0.001 would remain and it would not be.
\<close>

theorem C3_acquire_witness:
  "filter (is_available (\<lambda>x. x) 100)
      [key_a\<lparr>cooldown_until := 160\<rparr>, key_b\<lparr>cooldown_until := 130\<rparr>] = []
   \<and> active (key_b\<lparr>cooldown_until := 130\<rparr>) \<and> 100 < cooldown_until (key_b\<lparr>cooldown_until := 130\<rparr>)
   \<and> acquire (\<lambda>x. x) 100 [key_a\<lparr>cooldown_until := 160\<rparr>, key_b\<lparr>cooldown_until := 130\<rparr>]
       = (Inl (Exhausted 30), [key_a\<lparr>cooldown_until := 160\<rparr>, key_b\<lparr>cooldown_until := 130\<rparr>])
   \<and> filter (is_available (\<lambda>x. x) 100) [key_a\<lparr>active := False\<rparr>] = []
   \<and> \<not> active (key_a\<lparr>active := False\<rparr>)
   \<and> acquire (\<lambda>x. x) 100 [key_a\<lparr>active := False\<rparr>]
       = (Inl NoneAvailable, [key_a\<lparr>active := False\<rparr>])
   \<and> filter (is_available (\<lambda>x. x) 100) [key_a, key_b] = [key_a, key_b]
   \<and> health_score_fl (\<lambda>x. x) 100 key_a = 0 \<and> health_score_fl (\<lambda>x. x) 100 key_b = 1
   \<and> acquire (\<lambda>x. x) 100 [key_a, key_b] = (Inr key_b, [key_a, key_b])
   \<and> budget_remaining_fl rne53 key_r = 4503599627371 / 4503599627370496
   \<and> rne53 0.001 = 1152921504606847 / 1152921504606846976
   \<and> filter (is_available rne53 100) [key_r] = [key_r]
   \<and> acquire rne53 100 [key_r] = (Inr key_r, [key_r])
   \<and> budget_remaining_fl (\<lambda>x. x) (key_r\<lparr>cost_per_1k_input := 0.015\<rparr>) = 0.001
   \<and> \<not> is_available (\<lambda>x. x) 100 (key_r\<lparr>cost_per_1k_input := 0.015\<rparr>)"
proof -
  let ?cool = "[key_a\<lparr>cooldown_until := 160\<rparr>, key_b\<lparr>cooldown_until := 130\<rparr>]"
  let ?off = "[key_a\<lparr>active := False\<rparr>]"
  note defs = is_available_def budget_remaining_fl_def estimated_cost_usd_fl_def key_a_def key_b_def
  have c1: "filter (is_available (\<lambda>x. x) 100) ?cool = []" by (simp add: defs)
  have c2: "active (key_b\<lparr>cooldown_until := 130\<rparr>)"
    "100 < cooldown_until (key_b\<lparr>cooldown_until := 130\<rparr>)" by (simp_all add: defs)
  have c3: "fst (acquire (\<lambda>x. x) 100 ?cool) = Inl (Exhausted 30)"
    by (simp add: acquire_def defs)
  have o1: "filter (is_available (\<lambda>x. x) 100) ?off = []" by (simp add: defs)
  have o2: "\<not> active (key_a\<lparr>active := False\<rparr>)" by simp
  have a1: "filter (is_available (\<lambda>x. x) 100) [key_a, key_b] = [key_a, key_b]"
    by (simp add: defs)
  have a2: "health_score_fl (\<lambda>x. x) 100 key_a = 0" "health_score_fl (\<lambda>x. x) 100 key_b = 1"
    by (simp_all add: health_score_fl_def defs)
  have a3: "fst (acquire (\<lambda>x. x) 100 [key_a, key_b]) = Inr key_b"
    using a1 a2 by (simp add: acquire_def)
  have "\<not> (\<exists>k\<in>set ?off. active k \<and> 100 < cooldown_until k)" by simp
  with o1 C3_acquire [of "\<lambda>x. x" 100 ?off]
  have o3: "fst (acquire (\<lambda>x. x) 100 ?off) = Inl NoneAvailable"
    "snd (acquire (\<lambda>x. x) 100 ?off) = ?off"
    by blast+
  from C3_acquire [of "\<lambda>x. x" 100 ?cool] have c4: "snd (acquire (\<lambda>x. x) 100 ?cool) = ?cool"
    by blast
  from C3_acquire [of "\<lambda>x. x" 100 "[key_a, key_b]"]
  have a4: "snd (acquire (\<lambda>x. x) 100 [key_a, key_b]) = [key_a, key_b]" by blast
  have c5: "acquire (\<lambda>x. x) 100 ?cool = (Inl (Exhausted 30), ?cool)"
    using c3 c4 by (simp add: prod_eq_iff)
  have o5: "acquire (\<lambda>x. x) 100 ?off = (Inl NoneAvailable, ?off)"
    using o3 by (simp add: prod_eq_iff)
  have a5: "acquire (\<lambda>x. x) 100 [key_a, key_b] = (Inr key_b, [key_a, key_b])"
    using a3 a4 by (simp add: prod_eq_iff)
  have r1: "budget_remaining_fl rne53 key_r = 4503599627371 / 4503599627370496"
    by (rule key_r_budget)
  have r2: "rne53 0.001 = 1152921504606847 / 1152921504606846976"
    using rne53_threshold by simp
  have "active key_r" "cooldown_until key_r \<le> 100" by (simp_all add: key_r_def)
  with r1 r2 C3_acquire [of rne53 100 "[key_r]"] have r3: "is_available rne53 100 key_r"
    by simp
  then have r4: "filter (is_available rne53 100) [key_r] = [key_r]" by simp
  from r3 have r5: "acquire rne53 100 [key_r] = (Inr key_r, [key_r])"
    by (rule acquire_single)
  have r6: "budget_remaining_fl (\<lambda>x. x) (key_r\<lparr>cost_per_1k_input := 0.015\<rparr>) = 0.001"
    by (simp add: budget_remaining_fl_def estimated_cost_usd_fl_def key_r_def)
  then have r7: "\<not> is_available (\<lambda>x. x) 100 (key_r\<lparr>cost_per_1k_input := 0.015\<rparr>)"
    by (simp add: is_available_def)
  show ?thesis
    by (intro conjI c1 c2 c5 o1 o2 o5 a1 a2 a5 r1 r2 r4 r5 r6 r7)
qed

section \<open>Selecting the active prompt\<close>

lemma score_lt_trans: "score_lt a b \<Longrightarrow> score_lt b c \<Longrightarrow> score_lt a c"
  by (cases a; cases b; cases c) simp_all

lemma score_lt_total: "\<not> score_lt a b \<Longrightarrow> score_lt a c \<Longrightarrow> score_lt b c"
  by (cases a; cases b; cases c) simp_all

lemma keyed_by_all_ok:
  "\<forall>x\<in>set xs. \<exists>k. f x = Inr k \<Longrightarrow> keyed_by f xs = Inr (map (\<lambda>x. (x, projr (f x))) xs)"
  by (induction xs) auto

lemma ucb_score_ok:
  assumes "0 \<le> wins c + losses c"
  shows "\<exists>k. ucb_score total_evals c = Inr k"
proof (cases "wins c + losses c = 0")
  case True
  then show ?thesis by (simp add: ucb_score_def)
next
  case False
  with assms have pos: "0 < real_of_int (wins c + losses c)" by simp
  have "0 \<le> ln (real_of_int (max 1 total_evals))" by simp
  with pos have "0 \<le> 2 * ln (real_of_int (max 1 total_evals)) / real_of_int (wins c + losses c)"
    by (intro divide_nonneg_pos) simp_all
  then have "\<not> 2 * ln (real_of_int (max 1 total_evals)) / real_of_int (wins c + losses c) < 0"
    by (simp only: not_less)
  with False show ?thesis by (simp add: ucb_score_def Let_def)
qed

lemma ucb_score_inf_iff:
  "ucb_score total_evals c = Inr PosInf \<longleftrightarrow> wins c + losses c = 0"
  by (simp add: ucb_score_def Let_def)

lemma select_ucb1_first_max:
  assumes ne: "cs \<noteq> []" and nonneg: "\<forall>c\<in>set cs. 0 \<le> wins c + losses c"
  shows "\<exists>pre m post. cs = pre @ m # post \<and> select_ucb1 cs = Inr m
           \<and> (\<forall>p\<in>set pre. score_lt (projr (ucb_score (\<Sum>c\<leftarrow>cs. wins c + losses c) p))
                                   (projr (ucb_score (\<Sum>c\<leftarrow>cs. wins c + losses c) m)))
           \<and> (\<forall>q\<in>set post. \<not> score_lt (projr (ucb_score (\<Sum>c\<leftarrow>cs. wins c + losses c) m))
                                      (projr (ucb_score (\<Sum>c\<leftarrow>cs. wins c + losses c) q)))"
proof -
  let ?T = "\<Sum>c\<leftarrow>cs. wins c + losses c"
  let ?f = "\<lambda>c. projr (ucb_score ?T c)"
  let ?k = "map (\<lambda>c. (c, ?f c)) cs"
  from nonneg have "\<forall>c\<in>set cs. \<exists>k. ucb_score ?T c = Inr k"
    using ucb_score_ok by blast
  then have keyed: "keyed_by (ucb_score ?T) cs = Inr ?k"
    by (rule keyed_by_all_ok)
  have sel: "select_ucb1 cs = Inr (max_loop score_lt (hd ?k) (tl ?k))"
    using ne keyed by (simp add: select_ucb1_def Let_def)
  have "\<exists>pre m post. cs = pre @ m # post
           \<and> max_loop score_lt (hd ?k) (tl ?k) = m
           \<and> (\<forall>p\<in>set pre. score_lt (?f p) (?f m)) \<and> (\<forall>q\<in>set post. \<not> score_lt (?f m) (?f q))"
    using score_lt_trans score_lt_total ne by (rule max_loop_keyed)
  then obtain pre m post where
    s: "cs = pre @ m # post" "max_loop score_lt (hd ?k) (tl ?k) = m"
      "\<forall>p\<in>set pre. score_lt (?f p) (?f m)" "\<forall>q\<in>set post. \<not> score_lt (?f m) (?f q)"
    by (elim exE conjE)
  have 2: "select_ucb1 cs = Inr m" using sel s(2) by simp
  show ?thesis
    by (rule exI [of _ pre], rule exI [of _ m], rule exI [of _ post]) (intro conjI s(1) 2 s(3) s(4))
qed

lemma select_ucb1_unevaluated_first:
  assumes ne: "cs \<noteq> []" and nonneg: "\<forall>c\<in>set cs. 0 \<le> wins c + losses c"
  shows "\<exists>pre m post. cs = pre @ m # post \<and> select_ucb1 cs = Inr m
           \<and> (\<forall>p\<in>set pre. score_lt (projr (ucb_score (\<Sum>c\<leftarrow>cs. wins c + losses c) p))
                                   (projr (ucb_score (\<Sum>c\<leftarrow>cs. wins c + losses c) m)))
           \<and> (\<forall>q\<in>set post. \<not> score_lt (projr (ucb_score (\<Sum>c\<leftarrow>cs. wins c + losses c) m))
                                      (projr (ucb_score (\<Sum>c\<leftarrow>cs. wins c + losses c) q)))
           \<and> ((\<exists>c\<in>set cs. wins c + losses c = 0)
                \<longrightarrow> wins m + losses m = 0 \<and> (\<forall>p\<in>set pre. wins p + losses p \<noteq> 0))"
proof -
  let ?T = "\<Sum>c\<leftarrow>cs. wins c + losses c"
  let ?f = "\<lambda>c. projr (ucb_score ?T c)"
  from select_ucb1_first_max [OF ne nonneg] obtain pre m post where
    s: "cs = pre @ m # post" "select_ucb1 cs = Inr m"
      "\<forall>p\<in>set pre. score_lt (?f p) (?f m)" "\<forall>q\<in>set post. \<not> score_lt (?f m) (?f q)"
    by (elim exE conjE)
  have inf: "?f c = PosInf \<longleftrightarrow> wins c + losses c = 0" if "c \<in> set cs" for c
  proof -
    from that nonneg obtain k where "ucb_score ?T c = Inr k"
      using ucb_score_ok by blast
    then show ?thesis using ucb_score_inf_iff [of ?T c] by auto
  qed
  have 5: "(\<exists>c\<in>set cs. wins c + losses c = 0)
      \<longrightarrow> wins m + losses m = 0 \<and> (\<forall>p\<in>set pre. wins p + losses p \<noteq> 0)"
  proof (intro impI conjI)
    assume "\<exists>c\<in>set cs. wins c + losses c = 0"
    then obtain c where c: "c \<in> set cs" "wins c + losses c = 0" by blast
    then have fc: "?f c = PosInf" using inf by blast
    have "?f m = PosInf"
    proof (rule ccontr)
      assume n: "?f m \<noteq> PosInf"
      then obtain a where a: "?f m = Finite a" by (cases "?f m") auto
      from c(1) s(1) consider "c \<in> set pre" | "c = m" | "c \<in> set post" by auto
      then show False
      proof cases
        case 1
        with s(3) fc show False by (metis score_lt.simps(3))
      next
        case 2
        with fc n show False by simp
      next
        case 3
        with s(4) fc a show False by (metis score_lt.simps(2))
      qed
    qed
    moreover have "m \<in> set cs" using s(1) by simp
    ultimately show "wins m + losses m = 0" using inf by blast
  next
    show "\<forall>p\<in>set pre. wins p + losses p \<noteq> 0"
    proof
      fix p assume p: "p \<in> set pre"
      with s(3) have "score_lt (?f p) (?f m)" by blast
      then have "?f p \<noteq> PosInf" by (metis score_lt.simps(3))
      moreover from p s(1) have "p \<in> set cs" by simp
      ultimately show "wins p + losses p \<noteq> 0" using inf by blast
    qed
  qed
  show ?thesis
    by (rule exI [of _ pre], rule exI [of _ m], rule exI [of _ post])
      (intro conjI s(1) s(2) s(3) s(4) 5)
qed



section \<open>The seed of an evolution\<close>

lemma win_rate_unevaluated: "wins c + losses c = 0 \<Longrightarrow> win_rate c = 0.5"
  by (simp add: win_rate_def)

lemma best_by_win_rate_first_max:
  assumes "cs \<noteq> []"
  shows "\<exists>pre m post. cs = pre @ m # post \<and> best_by_win_rate cs = m
           \<and> (\<forall>p\<in>set pre. win_rate p < win_rate m)
           \<and> (\<forall>q\<in>set post. \<not> win_rate m < win_rate q)"
  unfolding best_by_win_rate_def Let_def
  by (rule max_loop_keyed) (use assms in auto)

lemma seed_unevaluated:
  assumes ne: "cs \<noteq> []"
    and fresh: "\<exists>c\<in>set cs. wins c + losses c = 0"
    and low: "\<forall>c\<in>set cs. wins c + losses c \<noteq> 0 \<longrightarrow> win_rate c < 0.5"
  shows "best_by_win_rate cs \<in> set cs
         \<and> wins (best_by_win_rate cs) + losses (best_by_win_rate cs) = 0"
proof -
  from best_by_win_rate_first_max [OF ne] obtain pre m post where
    s: "cs = pre @ m # post" "best_by_win_rate cs = m"
      "\<forall>p\<in>set pre. win_rate p < win_rate m" "\<forall>q\<in>set post. \<not> win_rate m < win_rate q"
    by (elim exE conjE)
  from fresh obtain c where c: "c \<in> set cs" "wins c + losses c = 0" by blast
  then have half: "win_rate c = 0.5" by (simp add: win_rate_unevaluated)
  from c(1) s(1) consider "c \<in> set pre" | "c = m" | "c \<in> set post" by auto
  then have "win_rate c \<le> win_rate m"
  proof cases
    case 1
    with s(3) show ?thesis by (simp add: less_imp_le)
  next
    case 2
    then show ?thesis by simp
  next
    case 3
    with s(4) show ?thesis by (simp add: not_less)
  qed
  with half have "\<not> win_rate m < 0.5" by simp
  moreover have m: "m \<in> set cs" using s(1) by simp
  ultimately have "wins m + losses m = 0" using low by blast
  with m s(2) show ?thesis by simp
qed

lemma seed_example:
  "win_rate cand_l = 0.25 \<and> win_rate cand_b = 0.5 \<and> best_by_win_rate [cand_l, cand_b] = cand_b"
  by (simp add: best_by_win_rate_def win_rate_def cand_l_def cand_b_def)

text \<open>
  Claim C10. \<open>win_rate\<close> is 0.5 for every candidate with \<open>wins + losses = 0\<close>. So
  when a pool holds such a candidate and each evaluated candidate has a win rate below
  0.5, the seed \<open>_evolve\<close> picks, the first candidate of maximal \<open>win_rate\<close>, is one
  that was never evaluated; and there is such a pool: in \<open>[cand_l, cand_b]\<close> the seed is
  \<open>cand_b\<close>, never evaluated, although \<open>cand_l\<close> has an observed win rate (of 0.25).
\<close>

theorem C10_seed_prefers_unevaluated:
  "(wins c + losses c = 0 \<longrightarrow> win_rate c = 0.5)
   \<and> (cs \<noteq> [] \<and> (\<exists>c\<in>set cs. wins c + losses c = 0)
        \<and> (\<forall>c\<in>set cs. wins c + losses c \<noteq> 0 \<longrightarrow> win_rate c < 0.5)
       \<longrightarrow> best_by_win_rate cs \<in> set cs
           \<and> wins (best_by_win_rate cs) + losses (best_by_win_rate cs) = 0)
   \<and> (\<exists>pool e f. e \<in> set pool \<and> f \<in> set pool \<and> 0 < wins e + losses e \<and> win_rate e < 0.5
         \<and> wins f + losses f = 0 \<and> best_by_win_rate pool = f)"
proof (intro conjI impI)
  assume "wins c + losses c = 0"
  then show "win_rate c = 0.5" by (rule win_rate_unevaluated)
next
  assume "cs \<noteq> [] \<and> (\<exists>c\<in>set cs. wins c + losses c = 0)
        \<and> (\<forall>c\<in>set cs. wins c + losses c \<noteq> 0 \<longrightarrow> win_rate c < 0.5)"
  then have h: "cs \<noteq> []" "\<exists>c\<in>set cs. wins c + losses c = 0"
    "\<forall>c\<in>set cs. wins c + losses c \<noteq> 0 \<longrightarrow> win_rate c < 0.5" by blast+
  from seed_unevaluated [OF h]
  show "best_by_win_rate cs \<in> set cs" by blast
  from seed_unevaluated [OF h]
  show "wins (best_by_win_rate cs) + losses (best_by_win_rate cs) = 0" by blast
next
  have "cand_l \<in> set [cand_l, cand_b]" "cand_b \<in> set [cand_l, cand_b]"
    "0 < wins cand_l + losses cand_l" "win_rate cand_l < 0.5" "wins cand_b + losses cand_b = 0"
    "best_by_win_rate [cand_l, cand_b] = cand_b"
    using seed_example by (simp_all add: cand_l_def cand_b_def)
  then show "\<exists>pool e f. e \<in> set pool \<and> f \<in> set pool \<and> 0 < wins e + losses e \<and> win_rate e < 0.5
         \<and> wins f + losses f = 0 \<and> best_by_win_rate pool = f"
    by blast
qed

text \<open>The claim on the pool \<open>[cand_l, cand_b]\<close>.\<close>

theorem C10_seed_prefers_unevaluated_witness:
  "wins cand_b + losses cand_b = 0 \<and> win_rate cand_b = 0.5
   \<and> [cand_l, cand_b] \<noteq> []
   \<and> wins cand_l + losses cand_l \<noteq> 0 \<and> win_rate cand_l < 0.5
   \<and> best_by_win_rate [cand_l, cand_b] \<in> set [cand_l, cand_b]
   \<and> wins (best_by_win_rate [cand_l, cand_b]) + losses (best_by_win_rate [cand_l, cand_b]) = 0"
proof -
  let ?cs = "[cand_l, cand_b]"
  have h0: "wins cand_b + losses cand_b = 0" by (simp add: cand_b_def)
  have h1: "?cs \<noteq> []" by simp
  have h2: "wins cand_l + losses cand_l \<noteq> 0" "win_rate cand_l < 0.5"
    by (simp_all add: cand_l_def win_rate_def)
  from h0 have h3: "\<exists>c\<in>set ?cs. wins c + losses c = 0" by simp
  from h0 h2 have h4: "\<forall>c\<in>set ?cs. wins c + losses c \<noteq> 0 \<longrightarrow> win_rate c < 0.5" by simp
  from h0 C10_seed_prefers_unevaluated [of cand_b ?cs]
  have r0: "win_rate cand_b = 0.5" by blast
  from h1 h3 h4 C10_seed_prefers_unevaluated [of cand_b ?cs]
  have r1: "best_by_win_rate ?cs \<in> set ?cs"
    "wins (best_by_win_rate ?cs) + losses (best_by_win_rate ?cs) = 0" by blast+
  from h0 r0 h1 h2 r1 show ?thesis by blast
qed

section \<open>Evolution: the variants accepted and the candidates made of them\<close>

lemma digit_inj:
  "a < 10 \<Longrightarrow> b < 10 \<Longrightarrow> (char_of (48 + a :: nat) :: char) = char_of (48 + b) \<Longrightarrow> a = b"
proof -
  assume a: "a < 10" and b: "b < 10" and e: "(char_of (48 + a :: nat) :: char) = char_of (48 + b)"
  from e have "(of_char (char_of (48 + a) :: char) :: nat) = of_char (char_of (48 + b) :: char)"
    by simp
  then have "(48 + a) mod 256 = (48 + b) mod 256"
    by (simp only: of_char_of)
  with a b show "a = b" by simp
qed

lemma str_nat_nonempty: "str_nat n \<noteq> []"
  by (subst str_nat.simps) simp

lemma str_nat_inj: "str_nat n = str_nat m \<Longrightarrow> n = m"
proof (induction n arbitrary: m rule: str_nat.induct)
  case (1 n)
  show ?case
  proof (cases "n < 10")
    case True
    show ?thesis
    proof (cases "m < 10")
      case mT: True
      from "1.prems" True mT have "(char_of (48 + n) :: char) = char_of (48 + m)"
        by (simp add: str_nat.simps [of n] str_nat.simps [of m])
      with True mT show ?thesis by (rule digit_inj)
    next
      case mF: False
      from "1.prems" True mF have "[char_of (48 + n)] = str_nat (m div 10) @ [char_of (48 + m mod 10)]"
        by (simp add: str_nat.simps [of n] str_nat.simps [of m])
      then have "str_nat (m div 10) = []" by simp
      then show ?thesis using str_nat_nonempty by blast
    qed
  next
    case False
    show ?thesis
    proof (cases "m < 10")
      case mT: True
      from "1.prems" False mT have "str_nat (n div 10) @ [char_of (48 + n mod 10)] = [char_of (48 + m)]"
        by (simp add: str_nat.simps [of n] str_nat.simps [of m])
      then have "str_nat (n div 10) = []" by simp
      then show ?thesis using str_nat_nonempty by blast
    next
      case mF: False
      from "1.prems" False mF have
        "str_nat (n div 10) @ [char_of (48 + n mod 10)] = str_nat (m div 10) @ [char_of (48 + m mod 10)]"
        by (simp add: str_nat.simps [of n] str_nat.simps [of m])
      then have e: "str_nat (n div 10) = str_nat (m div 10)"
        "(char_of (48 + n mod 10) :: char) = char_of (48 + m mod 10)" by simp_all
      from "1.IH" [OF False e(1)] have d: "n div 10 = m div 10" .
      have "n mod 10 = m mod 10"
        by (rule digit_inj [OF _ _ e(2)]) simp_all
      with d show ?thesis by (metis div_mult_mod_eq)
    qed
  qed
qed

lemma new_candidate_ids_distinct:
  "distinct (map prompt_id (map (case_prod (new_candidate aid now g)) (enumerate i vs)))"
proof -
  let ?P = "''ape_'' @ aid @ ''_'' @ str_int (py_int now) @ ''_''"
  have id: "prompt_id (case_prod (new_candidate aid now g) jv) = ?P @ str_nat (fst jv)" for jv
    by (cases jv) (simp add: new_candidate_def str_int_def)
  have "inj (\<lambda>j. ?P @ str_nat j)"
    by (rule injI) (simp add: str_nat_inj)
  then have "distinct (map (\<lambda>j. ?P @ str_nat j) (map fst (enumerate i vs)))"
    by (simp only: distinct_map map_fst_enumerate) (simp add: inj_on_def)
  moreover have "map prompt_id (map (case_prod (new_candidate aid now g)) (enumerate i vs))
      = map (\<lambda>j. ?P @ str_nat j) (map fst (enumerate i vs))"
    by (simp only: map_map comp_def id)
  ultimately show ?thesis by simp
qed

lemma spawn_loop_eq:
  "spawn_loop aid now g i vs (cs, tbl) =
     (cs @ map (case_prod (new_candidate aid now g)) (enumerate i vs),
      fold save_candidate (map (case_prod (new_candidate aid now g)) (enumerate i vs)) tbl)"
  by (induction vs arbitrary: i cs tbl) (simp_all add: Let_def)

lemma save_candidate_other:
  "prompt_id d \<noteq> pid \<Longrightarrow> save_candidate d tbl pid = tbl pid"
  by (simp add: save_candidate_def split: option.splits)

lemma save_candidate_fresh:
  "tbl (prompt_id c) = None \<Longrightarrow> save_candidate c tbl (prompt_id c) = Some c"
  by (simp add: save_candidate_def)

lemma save_candidate_counters:
  "\<exists>row. save_candidate c tbl (prompt_id c) = Some row \<and> wins row = wins c \<and> losses row = losses c"
  by (simp add: save_candidate_def split: option.splits)

lemma save_candidate_keeps_zero:
  assumes "tbl pid = Some row" "wins row = 0" "losses row = 0" "wins d = 0" "losses d = 0"
  shows "\<exists>row'. save_candidate d tbl pid = Some row' \<and> wins row' = 0 \<and> losses row' = 0"
  using assms by (cases "prompt_id d = pid") (auto simp: save_candidate_def split: option.splits)

lemma fold_save_others:
  "\<forall>d\<in>set ds. prompt_id d \<noteq> pid \<Longrightarrow> fold save_candidate ds tbl pid = tbl pid"
  by (induction ds arbitrary: tbl) (simp_all add: save_candidate_other)

lemma fold_save_keeps_zero:
  assumes "\<forall>d\<in>set ds. wins d = 0 \<and> losses d = 0"
    and "tbl pid = Some row" "wins row = 0" "losses row = 0"
  shows "\<exists>row'. fold save_candidate ds tbl pid = Some row' \<and> wins row' = 0 \<and> losses row' = 0"
  using assms
proof (induction ds arbitrary: tbl row)
  case Nil
  then show ?case by simp
next
  case (Cons d ds)
  from Cons.prems have "wins d = 0" "losses d = 0" by simp_all
  with Cons.prems(2-4) obtain row' where
    r: "save_candidate d tbl pid = Some row'" "wins row' = 0" "losses row' = 0"
    using save_candidate_keeps_zero by blast
  from Cons.prems(1) have "\<forall>d\<in>set ds. wins d = 0 \<and> losses d = 0" by simp
  with r Cons.IH [of "save_candidate d tbl" row'] show ?case by simp
qed

lemma fold_save_persists:
  assumes "\<forall>d\<in>set ds. wins d = 0 \<and> losses d = 0" and "c \<in> set ds"
  shows "\<exists>row. fold save_candidate ds tbl (prompt_id c) = Some row \<and> wins row = 0 \<and> losses row = 0"
  using assms
proof (induction ds arbitrary: tbl)
  case Nil
  then show ?case by simp
next
  case (Cons d ds)
  from Cons.prems(1) have z: "\<forall>d\<in>set ds. wins d = 0 \<and> losses d = 0"
    and zd: "wins d = 0" "losses d = 0" by simp_all
  show ?case
  proof (cases "c = d")
    case True
    from save_candidate_counters [of d tbl] zd True obtain row where
      "save_candidate d tbl (prompt_id c) = Some row" "wins row = 0" "losses row = 0" by auto
    with z fold_save_keeps_zero [of ds "save_candidate d tbl" "prompt_id c" row]
    show ?thesis by simp
  next
    case False
    with Cons.prems(2) have "c \<in> set ds" by simp
    with z Cons.IH [of "save_candidate d tbl"] show ?thesis by simp
  qed
qed

lemma fold_save_fresh:
  assumes "distinct (map prompt_id ds)" and "c \<in> set ds" and "tbl (prompt_id c) = None"
  shows "fold save_candidate ds tbl (prompt_id c) = Some c"
  using assms
proof (induction ds arbitrary: tbl)
  case Nil
  then show ?case by simp
next
  case (Cons d ds)
  from Cons.prems(1) have dist: "distinct (map prompt_id ds)"
    and "prompt_id d \<notin> prompt_id ` set ds" by simp_all
  have nd: "\<forall>e\<in>set ds. prompt_id e \<noteq> prompt_id d"
  proof
    fix e assume "e \<in> set ds"
    then have "prompt_id e \<in> prompt_id ` set ds" by (rule imageI)
    with \<open>prompt_id d \<notin> prompt_id ` set ds\<close> show "prompt_id e \<noteq> prompt_id d" by auto
  qed
  show ?case
  proof (cases "c = d")
    case True
    with Cons.prems(3) have "save_candidate d tbl (prompt_id c) = Some c"
      by (simp add: save_candidate_fresh)
    moreover from nd True have "\<forall>e\<in>set ds. prompt_id e \<noteq> prompt_id c" by simp
    ultimately show ?thesis by (simp add: fold_save_others)
  next
    case False
    with Cons.prems(2) have c: "c \<in> set ds" by simp
    with nd have "prompt_id d \<noteq> prompt_id c" by (simp add: Ball_def neq_commute)
    with Cons.prems(3) have "save_candidate d tbl (prompt_id c) = None"
      by (simp add: save_candidate_other)
    with dist c Cons.IH [of "save_candidate d tbl"] show ?thesis by simp
  qed
qed

lemma max_generation_upper:
  assumes "c \<in> set cs"
  shows "generation c \<le> max_generation cs"
proof -
  from assms have ne: "cs \<noteq> []" by auto
  then have eq: "generation (hd cs) # map generation (tl cs) = map generation cs"
    by (cases cs) simp_all
  have "max_generation cs = fold max (map generation (tl cs)) (generation (hd cs))"
    by (simp add: max_generation_def)
  also have "\<dots> = Max (set (generation (hd cs) # map generation (tl cs)))"
    by (rule Max.set_eq_fold [symmetric])
  also have "\<dots> = Max (set (map generation cs))"
    by (simp only: eq)
  finally have m: "max_generation cs = Max (set (map generation cs))" .
  have "generation c \<in> set (map generation cs)"
    using assms by simp
  then have "generation c \<le> Max (set (map generation cs))"
    by (rule Max_ge [OF finite_set])
  with m show ?thesis by simp
qed

lemma generate_variants_filter:
  "generate_variants (Inr r) n = take n (filter (\<lambda>t. 80 < length t) (map strip (findall_variant r)))"
  by (simp add: generate_variants_def Let_def filter_map comp_def)

lemma generate_variants_length: "length (generate_variants resp n) \<le> n"
  by (cases resp) (simp_all add: generate_variants_def Let_def)

lemma keyed_by_fst: "keyed_by f xs = Inr ps \<Longrightarrow> map fst ps = xs"
  by (induction xs arbitrary: ps) (auto split: sum.splits)

lemma set_insert_desc: "set (insert_desc x ys) = insert x (set ys)"
  by (induction ys) auto

lemma set_sort_desc: "set (sort_desc keyed) = fst ` set keyed"
proof -
  have "set (foldr insert_desc keyed []) = set keyed"
    by (induction keyed) (simp_all add: set_insert_desc)
  then show ?thesis by (simp add: sort_desc_def)
qed

lemma evolve_prune_subset:
  "set (candidates (fst (snd (evolve_prune (self, tbl))))) \<subseteq> set (candidates self)"
proof (cases "length (candidates self) > APE_MAX_POOL")
  case False
  then show ?thesis by (simp add: evolve_prune_def)
next
  case True
  let ?T = "sum_list (map (\<lambda>c. wins c + losses c) (candidates self))"
  show ?thesis
  proof (cases "keyed_by (ucb_score ?T) (candidates self)")
    case (Inl e)
    with True show ?thesis by (simp add: evolve_prune_def Let_def)
  next
    case (Inr keyed)
    then have "map fst keyed = candidates self" by (rule keyed_by_fst)
    then have "fst ` set keyed = set (candidates self)"
      by (metis list.set_map)
    then have "set (take (APE_MAX_POOL - 2) (sort_desc keyed)) \<subseteq> set (candidates self)"
      using set_take_subset [of "APE_MAX_POOL - 2" "sort_desc keyed"]
      by (simp add: set_sort_desc)
    with True Inr show ?thesis by (simp add: evolve_prune_def Let_def)
  qed
qed

lemma evolve_spawn_eq:
  "evolve_spawn resp now (self, tbl) =
     (self\<lparr>candidates := candidates self
         @ map (case_prod (new_candidate (self_agent_id self) now (max_generation (candidates self))))
             (enumerate 0 (generate_variants resp APE_CANDIDATES))\<rparr>,
      fold save_candidate
        (map (case_prod (new_candidate (self_agent_id self) now (max_generation (candidates self))))
           (enumerate 0 (generate_variants resp APE_CANDIDATES))) tbl)"
  by (simp add: evolve_spawn_def Let_def spawn_loop_eq)

lemma new_candidate_fields:
  assumes "c \<in> set (map (case_prod (new_candidate aid now g)) (enumerate i vs))"
  shows "generation c = g + 1 \<and> wins c = 0 \<and> losses c = 0"
proof -
  from assms obtain j v where "c = new_candidate aid now g j v" by auto
  then show ?thesis by (simp add: new_candidate_def)
qed

lemma new_candidate_texts:
  "map text_of (map (case_prod (new_candidate aid now g)) (enumerate i vs)) = vs"
proof -
  have "text_of (case_prod (new_candidate aid now g) jv) = snd jv" for jv
    by (cases jv) (simp add: new_candidate_def)
  then have "map text_of (map (case_prod (new_candidate aid now g)) (enumerate i vs))
      = map snd (enumerate i vs)"
    by (simp add: comp_def)
  then show ?thesis by (simp add: enumerate_eq_zip)
qed

text \<open>
  Claim C7, as the code has it. \<open>_generate_variants\<close> keeps the parsed blocks whose
  stripped text has more than 80 characters (a block of 80 characters or fewer is
  discarded), in order, up to the count asked for, 3. Each accepted text becomes a
  new candidate appended to the pool, with \<open>generation\<close> one above the maximum of the
  pool, \<open>wins = losses = 0\<close>, and a row in the table under its \<open>prompt_id\<close> with
  \<open>wins = losses = 0\<close> (the candidate itself when the table had no row of that id).
  Every candidate already in the pool has a smaller \<open>generation\<close> than each new one.
  After the pruning that ends \<open>_evolve\<close>, every candidate of the pool is a former
  one or one of the new ones.
\<close>

theorem C7_evolve_variants:
  "(let vs = generate_variants resp APE_CANDIDATES;
        g = max_generation (candidates self);
        new = map (case_prod (new_candidate (self_agent_id self) now g)) (enumerate 0 vs);
        after = evolve_spawn resp now (self, tbl)
    in (\<forall>r. resp = Inr r \<longrightarrow>
          vs = take 3 (filter (\<lambda>t. 80 < length t) (map strip (findall_variant r))))
       \<and> length vs \<le> 3
       \<and> candidates (fst after) = candidates self @ new
       \<and> map text_of new = vs
       \<and> (\<forall>c\<in>set new. generation c = g + 1 \<and> wins c = 0 \<and> losses c = 0
             \<and> (\<exists>row. snd after (prompt_id c) = Some row \<and> wins row = 0 \<and> losses row = 0)
             \<and> (tbl (prompt_id c) = None \<longrightarrow> snd after (prompt_id c) = Some c))
       \<and> (\<forall>old\<in>set (candidates self). \<forall>c\<in>set new. generation old < generation c)
       \<and> set (candidates (fst (snd (evolve resp now (self, tbl)))))
           \<subseteq> set (candidates self) \<union> set new)"
proof -
  define vs where "vs = generate_variants resp APE_CANDIDATES"
  define g where "g = max_generation (candidates self)"
  define new where "new = map (case_prod (new_candidate (self_agent_id self) now g)) (enumerate 0 vs)"
  define after where "after = evolve_spawn resp now (self, tbl)"
  have after: "after = (self\<lparr>candidates := candidates self @ new\<rparr>, fold save_candidate new tbl)"
    unfolding after_def new_def g_def vs_def by (rule evolve_spawn_eq)
  have zero: "\<forall>d\<in>set new. wins d = 0 \<and> losses d = 0"
    unfolding new_def using new_candidate_fields by blast
  have dist: "distinct (map prompt_id new)"
    unfolding new_def by (rule new_candidate_ids_distinct)
  have 1: "\<forall>r. resp = Inr r \<longrightarrow>
          vs = take 3 (filter (\<lambda>t. 80 < length t) (map strip (findall_variant r)))"
    unfolding vs_def by (simp add: generate_variants_filter APE_CANDIDATES_def)
  have 2: "length vs \<le> 3"
    unfolding vs_def using generate_variants_length [of resp APE_CANDIDATES]
    by (simp add: APE_CANDIDATES_def)
  have 3: "candidates (fst after) = candidates self @ new"
    by (simp add: after)
  have 4: "map text_of new = vs"
    unfolding new_def by (rule new_candidate_texts)
  have 5: "\<forall>c\<in>set new. generation c = g + 1 \<and> wins c = 0 \<and> losses c = 0
             \<and> (\<exists>row. snd after (prompt_id c) = Some row \<and> wins row = 0 \<and> losses row = 0)
             \<and> (tbl (prompt_id c) = None \<longrightarrow> snd after (prompt_id c) = Some c)"
  proof
    fix c assume c: "c \<in> set new"
    then have f: "generation c = g + 1 \<and> wins c = 0 \<and> losses c = 0"
      unfolding new_def by (rule new_candidate_fields)
    have p: "\<exists>row. snd after (prompt_id c) = Some row \<and> wins row = 0 \<and> losses row = 0"
      using fold_save_persists [OF zero c, of tbl] by (simp add: after)
    have q: "tbl (prompt_id c) = None \<longrightarrow> snd after (prompt_id c) = Some c"
      using fold_save_fresh [OF dist c, of tbl] by (simp add: after)
    from f p q show "generation c = g + 1 \<and> wins c = 0 \<and> losses c = 0
             \<and> (\<exists>row. snd after (prompt_id c) = Some row \<and> wins row = 0 \<and> losses row = 0)
             \<and> (tbl (prompt_id c) = None \<longrightarrow> snd after (prompt_id c) = Some c)"
      by blast
  qed
  have 6: "\<forall>old\<in>set (candidates self). \<forall>c\<in>set new. generation old < generation c"
  proof (intro ballI)
    fix old c assume "old \<in> set (candidates self)" "c \<in> set new"
    then have "generation old \<le> g" "generation c = g + 1"
      using max_generation_upper [of old "candidates self"] 5 by (simp_all add: g_def)
    then show "generation old < generation c" by simp
  qed
  have 7: "set (candidates (fst (snd (evolve resp now (self, tbl)))))
           \<subseteq> set (candidates self) \<union> set new"
  proof (cases "candidates self = []")
    case True
    then show ?thesis by (simp add: evolve_def)
  next
    case False
    then have "evolve resp now (self, tbl)
        = evolve_prune (self\<lparr>candidates := candidates self @ new\<rparr>, fold save_candidate new tbl)"
      using after by (simp add: evolve_def after_def)
    then show ?thesis
      using evolve_prune_subset [of "self\<lparr>candidates := candidates self @ new\<rparr>" "fold save_candidate new tbl"]
      by simp
  qed
  from 1 2 3 4 5 6 7 show ?thesis
    unfolding Let_def vs_def [symmetric] g_def [symmetric] new_def [symmetric] after_def [symmetric]
    by (intro conjI)
qed

text \<open>
  The claim as it was worded fails at a block of exactly 80 characters: it is not
  below 80 characters, and it is discarded.
\<close>

theorem C7_block_of_80_counterexample:
  "length (strip (replicate 80 (CHR ''x''))) = 80
   \<and> findall_variant (''<VARIANT>'' @ replicate 80 (CHR ''x'') @ ''</VARIANT>'')
       = [replicate 80 (CHR ''x'')]
   \<and> generate_variants
        (Inr (''<VARIANT>'' @ replicate 80 (CHR ''x'') @ ''</VARIANT>'') :: unit + string)
        APE_CANDIDATES = []"
  by code_simp

text \<open>
  The amended claim on the controller \<open>ctl_a\<close> with an empty table, at time 20, for the
  reply \<open>resp_a\<close>: the block of 81 characters is accepted without the white space
  around it, the short one and the one of 80 characters are discarded, and the pool
  gains one candidate of generation 1, stored under its id.
\<close>

theorem C7_evolve_variants_witness:
  "map length (findall_variant (projr resp_a)) = [83, 5, 81]
   \<and> generate_variants resp_a APE_CANDIDATES = [replicate 81 (CHR ''x'')]
   \<and> max_generation (candidates ctl_a) = 0
   \<and> candidates (fst (evolve_spawn resp_a 20 (ctl_a, Map.empty)))
      = [cand_a, new_candidate ''ag1'' 20 0 0 (replicate 81 (CHR ''x''))]
   \<and> prompt_id (new_candidate ''ag1'' 20 0 0 (replicate 81 (CHR ''x''))) = ''ape_ag1_20_0''
   \<and> generation (new_candidate ''ag1'' 20 0 0 (replicate 81 (CHR ''x''))) = 1
   \<and> wins (new_candidate ''ag1'' 20 0 0 (replicate 81 (CHR ''x''))) = 0
   \<and> losses (new_candidate ''ag1'' 20 0 0 (replicate 81 (CHR ''x''))) = 0
   \<and> snd (evolve_spawn resp_a 20 (ctl_a, Map.empty)) ''ape_ag1_20_0''
      = Some (new_candidate ''ag1'' 20 0 0 (replicate 81 (CHR ''x'')))
   \<and> generation cand_a < generation (new_candidate ''ag1'' 20 0 0 (replicate 81 (CHR ''x'')))"
proof -
  let ?n = "new_candidate ''ag1'' 20 0 0 (replicate 81 (CHR ''x''))"
  have v: "generate_variants resp_a APE_CANDIDATES = [replicate 81 (CHR ''x'')]"
    by code_simp
  have b: "map length (findall_variant (projr resp_a)) = [83, 5, 81]"
    by code_simp
  have g: "max_generation (candidates ctl_a) = 0"
    by (simp add: max_generation_def ctl_a_def cand_a_def)
  have a: "self_agent_id ctl_a = ''ag1''" "candidates ctl_a = [cand_a]"
    by (simp_all add: ctl_a_def)
  have g2: "max_generation [cand_a] = 0"
    by (simp add: max_generation_def cand_a_def)
  have s: "str_int (py_int 20) = ''20''" "str_int 0 = ''0''"
    by code_simp+
  have i: "prompt_id ?n = ''ape_ag1_20_0''"
    by (simp add: new_candidate_def s)
  have new: "map (case_prod (new_candidate (self_agent_id ctl_a) 20 (max_generation (candidates ctl_a))))
      (enumerate 0 (generate_variants resp_a APE_CANDIDATES)) = [?n]"
    by (simp add: v g2 a)
  note th = C7_evolve_variants [of resp_a ctl_a 20 Map.empty, unfolded Let_def new]
  from th have p: "candidates (fst (evolve_spawn resp_a 20 (ctl_a, Map.empty))) = [cand_a, ?n]"
    by (simp add: a)
  have n: "?n \<in> set [?n]" by simp
  from th n have f: "generation ?n = 1 \<and> wins ?n = 0 \<and> losses ?n = 0
      \<and> (Map.empty (prompt_id ?n) = None
           \<longrightarrow> snd (evolve_spawn resp_a 20 (ctl_a, Map.empty)) (prompt_id ?n) = Some ?n)"
    by (simp add: g2 a)
  then have q: "snd (evolve_spawn resp_a 20 (ctl_a, Map.empty)) ''ape_ag1_20_0'' = Some ?n"
    by (simp add: i)
  have "cand_a \<in> set (candidates ctl_a)" by (simp add: a)
  with th n have o: "generation cand_a < generation ?n" by blast
  from b v g p i f q o show ?thesis by blast
qed

section \<open>Forced exploration of the action bandit\<close>

lemma stats_get_absent: "a \<notin> fst ` set st \<Longrightarrow> plays (stats_get st a) = 0"
  by (simp add: stats_get_def map_of_eq_None_iff [THEN iffD2])

lemma stats_get_nonneg:
  assumes "\<forall>e\<in>snd ` set st. 0 \<le> plays e"
  shows "0 \<le> plays (stats_get st a)"
proof (cases "map_of st a")
  case None
  then show ?thesis by (simp add: stats_get_def)
next
  case (Some e)
  then have "(a, e) \<in> set st" by (rule map_of_SomeD)
  then have "e \<in> snd ` set st" by force
  with assms have "0 \<le> plays e" by blast
  with Some show ?thesis by (simp add: stats_get_def)
qed

lemma stats_get_zero_absent:
  assumes "\<forall>e\<in>snd ` set st. plays e \<noteq> 0" and "plays (stats_get st a) = 0"
  shows "a \<notin> fst ` set st"
proof (cases "map_of st a")
  case None
  then show ?thesis by (simp add: map_of_eq_None_iff)
next
  case (Some e)
  then have "(a, e) \<in> set st" by (rule map_of_SomeD)
  then have "e \<in> snd ` set st" by force
  with assms(1) have "plays e \<noteq> 0" by blast
  with Some assms(2) show ?thesis by (simp add: stats_get_def)
qed

lemma best_action_loop_first_unplayed:
  assumes "\<forall>b\<in>set pre. 0 < plays (stats_get st b)" and "plays (stats_get st a) = 0"
  shows "best_action_loop st total_plays best_score best_action (pre @ a # post) = Inr (Some a)"
  using assms(1)
proof (induction pre arbitrary: best_score best_action)
  case Nil
  with assms(2) show ?case by (simp add: Let_def)
next
  case (Cons b pre)
  then have pos: "0 < real_of_int (plays (stats_get st b))" by simp
  have "0 \<le> ln (real_of_int (max 1 total_plays))" by simp
  with pos have "0 \<le> 2 * ln (real_of_int (max 1 total_plays)) / real_of_int (plays (stats_get st b))"
    by (intro divide_nonneg_pos) simp_all
  then have ok: "\<not> 2 * ln (real_of_int (max 1 total_plays)) / real_of_int (plays (stats_get st b)) < 0"
    by (simp only: not_less)
  from Cons.prems have rest: "\<forall>b\<in>set pre. 0 < plays (stats_get st b)"
    and nz: "plays (stats_get st b) \<noteq> 0" by simp_all
  have step: "best_action_loop st total_plays best_score best_action (b # pre @ a # post)
      = (let score = total_reward (stats_get st b) / real_of_int (plays (stats_get st b))
                     + sqrt (2 * ln (real_of_int (max 1 total_plays)) / real_of_int (plays (stats_get st b)))
         in if score > best_score
            then best_action_loop st total_plays score (Some b) (pre @ a # post)
            else best_action_loop st total_plays best_score best_action (pre @ a # post))"
    using nz ok by (simp add: Let_def)
  show ?case
    unfolding append_Cons step Let_def using Cons.IH [OF rest] by simp
qed

lemma ucb_best_action_first_unplayed:
  assumes ne: "st \<noteq> []" and nonneg: "\<forall>e\<in>snd ` set st. 0 \<le> plays e"
    and absent: "\<exists>a\<in>set cands. a \<notin> fst ` set st"
  shows "\<exists>pre a post. cands = pre @ a # post \<and> (\<forall>b\<in>set pre. plays (stats_get st b) \<noteq> 0)
           \<and> plays (stats_get st a) = 0 \<and> ucb_best_action st cands = Inr (Some a)
           \<and> ((\<forall>e\<in>snd ` set st. plays e \<noteq> 0) \<longrightarrow> a \<notin> fst ` set st)"
proof -
  from absent have "\<exists>a\<in>set cands. plays (stats_get st a) = 0"
    using stats_get_absent by blast
  then obtain pre a post where
    s: "cands = pre @ a # post" "plays (stats_get st a) = 0"
      "\<forall>b\<in>set pre. plays (stats_get st b) \<noteq> 0"
    using split_list_first_prop [of cands "\<lambda>a. plays (stats_get st a) = 0"] by blast
  have "\<forall>b\<in>set pre. 0 < plays (stats_get st b)"
  proof
    fix b assume "b \<in> set pre"
    with s(3) have "plays (stats_get st b) \<noteq> 0" by blast
    moreover have "0 \<le> plays (stats_get st b)" using nonneg by (rule stats_get_nonneg)
    ultimately show "0 < plays (stats_get st b)" by simp
  qed
  then have "best_action_loop st (sum_list (map (\<lambda>v. plays v) (map snd st))) (- 1) None (pre @ a # post)
      = Inr (Some a)"
    using s(2) by (rule best_action_loop_first_unplayed)
  with ne s(1) have 4: "ucb_best_action st cands = Inr (Some a)"
    by (simp add: ucb_best_action_def Let_def)
  have 5: "(\<forall>e\<in>snd ` set st. plays e \<noteq> 0) \<longrightarrow> a \<notin> fst ` set st"
    using s(2) stats_get_zero_absent by blast
  show ?thesis
    by (rule exI [of _ pre], rule exI [of _ a], rule exI [of _ post]) (intro conjI s(1) s(3) s(2) 4 5)
qed

text \<open>
  Claim C2, as the code has it. With no bandit statistics at all, \<open>ucb_best_action\<close>
  returns \<open>None\<close>, whatever the candidate actions. With statistics (play counts being
  counts, none negative) and a candidate list that holds an action absent from them,
  it returns the first candidate with zero recorded plays: the list is
  \<open>pre @ a # post\<close>, each action of \<open>pre\<close> has plays, \<open>a\<close> has none and is returned;
  and \<open>a\<close> is absent from the statistics when every entry has been played. So for such
  a candidate list the result is \<open>None\<close> exactly when there are no statistics.
\<close>

theorem C2_ucb_best_action:
  "ucb_best_action [] cands = Inr None
   \<and> (st \<noteq> [] \<and> (\<forall>e\<in>snd ` set st. 0 \<le> plays e) \<and> (\<exists>a\<in>set cands. a \<notin> fst ` set st) \<longrightarrow>
        (\<exists>pre a post. cands = pre @ a # post \<and> (\<forall>b\<in>set pre. plays (stats_get st b) \<noteq> 0)
           \<and> plays (stats_get st a) = 0 \<and> ucb_best_action st cands = Inr (Some a)
           \<and> ((\<forall>e\<in>snd ` set st. plays e \<noteq> 0) \<longrightarrow> a \<notin> fst ` set st)))
   \<and> ((\<forall>e\<in>snd ` set st. 0 \<le> plays e) \<and> (\<exists>a\<in>set cands. a \<notin> fst ` set st) \<longrightarrow>
        (ucb_best_action st cands = Inr None \<longleftrightarrow> st = []))"
proof (intro conjI impI)
  show e: "ucb_best_action [] cands = Inr None"
    by (simp add: ucb_best_action_def)
next
  assume "st \<noteq> [] \<and> (\<forall>e\<in>snd ` set st. 0 \<le> plays e) \<and> (\<exists>a\<in>set cands. a \<notin> fst ` set st)"
  then have "st \<noteq> []" "\<forall>e\<in>snd ` set st. 0 \<le> plays e" "\<exists>a\<in>set cands. a \<notin> fst ` set st"
    by blast+
  then show "\<exists>pre a post. cands = pre @ a # post \<and> (\<forall>b\<in>set pre. plays (stats_get st b) \<noteq> 0)
           \<and> plays (stats_get st a) = 0 \<and> ucb_best_action st cands = Inr (Some a)
           \<and> ((\<forall>e\<in>snd ` set st. plays e \<noteq> 0) \<longrightarrow> a \<notin> fst ` set st)"
    by (rule ucb_best_action_first_unplayed)
next
  assume h: "(\<forall>e\<in>snd ` set st. 0 \<le> plays e) \<and> (\<exists>a\<in>set cands. a \<notin> fst ` set st)"
  show "ucb_best_action st cands = Inr None \<longleftrightarrow> st = []"
  proof (cases "st = []")
    case True
    then show ?thesis by (simp add: ucb_best_action_def)
  next
    case False
    with h obtain a where "ucb_best_action st cands = Inr (Some a)"
      using ucb_best_action_first_unplayed [of st cands] by blast
    with False show ?thesis by simp
  qed
qed

text \<open>
  The claim as it was worded fails when there are no statistics: \<open>attack\<close> is a
  candidate absent from them, and the result is \<open>None\<close>.
\<close>

theorem C2_no_stats_counterexample:
  "''attack'' \<in> set [''attack''] \<and> ''attack'' \<notin> fst ` set ([] :: ucb_stats)
   \<and> ucb_best_action [] [''attack''] = Inr None"
  by (simp add: ucb_best_action_def)

text \<open>
  The amended claim on \<open>stats_a\<close> and the candidates \<open>attack\<close>, \<open>defend\<close>, \<open>observe\<close>:
  \<open>attack\<close> has been played, \<open>defend\<close> is the first action never played and is returned.
\<close>

theorem C2_ucb_best_action_witness:
  "stats_a \<noteq> [] \<and> 0 \<le> plays (snd (hd stats_a)) \<and> ''defend'' \<notin> fst ` set stats_a
   \<and> plays (stats_get stats_a ''attack'') = 3
   \<and> ucb_best_action stats_a [''attack'', ''defend'', ''observe''] = Inr (Some ''defend'')
   \<and> ucb_best_action stats_a [''attack'', ''defend'', ''observe''] \<noteq> Inr None"
proof -
  let ?c = "[''attack'', ''defend'', ''observe'']"
  have h1: "stats_a \<noteq> []" "0 \<le> plays (snd (hd stats_a))" "''defend'' \<notin> fst ` set stats_a"
    by (simp_all add: stats_a_def)
  have h2: "\<forall>e\<in>snd ` set stats_a. 0 \<le> plays e" by (simp add: stats_a_def)
  from h1(3) have h3: "\<exists>a\<in>set ?c. a \<notin> fst ` set stats_a" by simp
  have p: "plays (stats_get stats_a ''attack'') = 3" "plays (stats_get stats_a ''defend'') = 0"
    by (simp_all add: stats_get_def stats_a_def)
  from h1(1) h2 h3 C2_ucb_best_action [of ?c stats_a] obtain pre a post where
    s: "?c = pre @ a # post" "\<forall>b\<in>set pre. plays (stats_get stats_a b) \<noteq> 0"
      "plays (stats_get stats_a a) = 0" "ucb_best_action stats_a ?c = Inr (Some a)"
    by blast
  have "a = ''defend''"
  proof (cases pre)
    case Nil
    with s(1,3) p(1) show ?thesis by simp
  next
    case (Cons x xs)
    with s(1) have x: "[''defend'', ''observe''] = xs @ a # post" by simp
    show ?thesis
    proof (cases xs)
      case Nil
      with x show ?thesis by simp
    next
      case (Cons y ys)
      with x have "y = ''defend''" by simp
      with s(2) p(2) Cons \<open>pre = x # xs\<close> show ?thesis by simp
    qed
  qed
  with s(4) have r: "ucb_best_action stats_a ?c = Inr (Some ''defend'')" by simp
  then have n: "ucb_best_action stats_a ?c \<noteq> Inr None" by simp
  from h1 p(1) r n show ?thesis by blast
qed

section \<open>The hashed embedding\<close>

lemma embed_loop_length: "length (embed_loop h i ws vec) = length vec"
  by (induction ws arbitrary: i vec) (simp_all add: Let_def)

lemma embed_loop_ge:
  "j < length vec \<Longrightarrow> vec ! j \<le> embed_loop h i ws vec ! j"
proof (induction ws arbitrary: i vec)
  case Nil
  then show ?case by simp
next
  case (Cons w ws)
  let ?idx = "h w mod 64"
  let ?v = "vec[?idx := vec ! ?idx + 1 / real (i + 1)]"
  from Cons.prems have "j < length ?v" by simp
  then have "?v ! j \<le> embed_loop h (Suc i) ws ?v ! j" by (rule Cons.IH)
  moreover have "vec ! j \<le> ?v ! j"
    using Cons.prems by (cases "j = ?idx") simp_all
  ultimately show ?case by (simp add: Let_def)
qed

lemma embed_loop_weights:
  "j < length vec \<Longrightarrow>
   embed_loop h i ws vec ! j
     = vec ! j + (\<Sum>(k, w)\<leftarrow>enumerate i ws. if h w mod 64 = j then 1 / real (k + 1) else 0)"
proof (induction ws arbitrary: i vec)
  case Nil
  then show ?case by simp
next
  case (Cons w ws)
  let ?idx = "h w mod 64"
  let ?v = "vec[?idx := vec ! ?idx + 1 / real (i + 1)]"
  from Cons.prems have "j < length ?v" by simp
  then have "embed_loop h (Suc i) ws ?v ! j
     = ?v ! j + (\<Sum>(k, w)\<leftarrow>enumerate (Suc i) ws. if h w mod 64 = j then 1 / real (k + 1) else 0)"
    by (rule Cons.IH)
  moreover have "?v ! j = vec ! j + (if ?idx = j then 1 / real (i + 1) else 0)"
    using Cons.prems by (cases "j = ?idx") auto
  ultimately show ?case by (simp add: Let_def)
qed

lemma embed_loop_positive:
  assumes "ws \<noteq> []" "length vec = 64" "\<forall>x\<in>set vec. 0 \<le> x"
  shows "\<exists>j<64. 0 < embed_loop h i ws vec ! j"
proof -
  from assms(1) obtain w rest where ws: "ws = w # rest" by (cases ws) auto
  let ?idx = "h w mod 64"
  let ?v = "vec[?idx := vec ! ?idx + 1 / real (i + 1)]"
  have idx: "?idx < 64" by simp
  with assms(2,3) have "0 \<le> vec ! ?idx" by simp
  moreover have "0 < 1 / real (i + 1)" by simp
  ultimately have "0 < vec ! ?idx + 1 / real (i + 1)" by linarith
  then have "0 < ?v ! ?idx" using idx assms(2) by simp
  moreover have "?v ! ?idx \<le> embed_loop h (Suc i) rest ?v ! ?idx"
    by (rule embed_loop_ge) (simp add: assms(2))
  ultimately have "0 < embed_loop h i ws vec ! ?idx"
    by (simp add: ws Let_def)
  with idx show ?thesis by blast
qed

lemma square_le_sum_squares:
  "x \<in> set v \<Longrightarrow> x * x \<le> (\<Sum>y\<leftarrow>v. y * y)" for x :: real
proof (induction v)
  case Nil
  then show ?case by simp
next
  case (Cons a v)
  have nn: "0 \<le> (\<Sum>y\<leftarrow>v. y * y)" by (rule sum_list_nonneg) auto
  show ?case
  proof (cases "x = a")
    case True
    with nn show ?thesis by simp
  next
    case False
    with Cons have "x * x \<le> (\<Sum>y\<leftarrow>v. y * y)" by simp
    moreover have "0 \<le> a * a" by simp
    ultimately have "x * x \<le> a * a + (\<Sum>y\<leftarrow>v. y * y)" by linarith
    then show ?thesis by simp
  qed
qed

lemma l2_norm_positive:
  assumes "j < length v" "0 < v ! j"
  shows "0 < l2_norm v"
proof -
  from assms(1) have "v ! j \<in> set v" by simp
  then have "v ! j * v ! j \<le> (\<Sum>y\<leftarrow>v. y * y)" by (rule square_le_sum_squares)
  moreover from assms(2) have "0 < v ! j * v ! j" by simp
  ultimately have "0 < (\<Sum>y\<leftarrow>v. y * y)" by linarith
  then show ?thesis by (simp add: l2_norm_def)
qed

lemma l2_norm_normalised:
  assumes "0 < l2_norm v"
  shows "l2_norm (map (\<lambda>x. x / l2_norm v) v) = 1"
proof -
  let ?S = "\<Sum>y\<leftarrow>v. y * y"
  let ?n = "l2_norm v"
  have S: "0 \<le> ?S" by (rule sum_list_nonneg) auto
  then have nn: "?n * ?n = ?S" by (simp add: l2_norm_def)
  with assms have Spos: "0 < ?S" by (metis mult_pos_pos)
  have "(\<Sum>y\<leftarrow>map (\<lambda>x. x / ?n) v. y * y) = (\<Sum>y\<leftarrow>v. (1 / (?n * ?n)) * (y * y))"
    by (simp add: comp_def)
  also have "\<dots> = (1 / (?n * ?n)) * ?S"
    by (rule sum_list_const_mult)
  also have "\<dots> = 1" using nn Spos by simp
  finally show ?thesis by (simp add: l2_norm_def)
qed

lemma split_loop_empty_iff:
  "split_loop cur s = [] \<longleftrightarrow> cur = [] \<and> (\<forall>c\<in>set s. is_space c)"
  by (induction s arbitrary: cur) auto

lemma is_space_lower_char: "is_space (lower_char c) \<longleftrightarrow> is_space c"
proof (cases "is_upper c")
  case False
  then have "lower_char c = c" by (simp add: lower_char_def)
  then show ?thesis by simp
next
  case True
  then have l: "lower_char c = char_of (of_char c + 32 :: nat)"
    by (simp add: lower_char_def)
  from True have r: "97 \<le> (of_char c :: nat) + 32" "(of_char c :: nat) + 32 \<le> 254"
    by (auto simp: is_upper_def Let_def)
  then have "(of_char (char_of (of_char c + 32 :: nat) :: char) :: nat) = of_char c + 32"
    by (simp only: of_char_of) simp
  with True have 1: "\<not> is_space (char_of (of_char c + 32 :: nat))"
    by (auto simp: is_space_def is_upper_def Let_def)
  from True have 2: "\<not> is_space c"
    by (auto simp: is_upper_def is_space_def Let_def)
  from l 1 2 show ?thesis by simp
qed

lemma tokens_iff: "split_ws (lower txt) \<noteq> [] \<longleftrightarrow> (\<exists>c\<in>set txt. \<not> is_space c)"
  by (simp add: split_ws_def lower_def split_loop_empty_iff is_space_lower_char)

lemma embed_text_eq:
  "embed_text h txt =
     (if 0 < l2_norm (embed_loop h 0 (take 64 (split_ws (lower txt))) (replicate 64 0))
      then map (\<lambda>x. x / l2_norm (embed_loop h 0 (take 64 (split_ws (lower txt))) (replicate 64 0)))
             (embed_loop h 0 (take 64 (split_ws (lower txt))) (replicate 64 0))
      else embed_loop h 0 (take 64 (split_ws (lower txt))) (replicate 64 0))"
  by (simp add: embed_text_def Let_def)

lemma embed_text_length: "length (embed_text h txt) = 64"
  by (simp add: embed_text_eq embed_loop_length)

lemma embed_text_unit:
  assumes "split_ws (lower txt) \<noteq> []"
  shows "l2_norm (embed_text h txt) = 1"
proof -
  let ?ws = "take 64 (split_ws (lower txt))"
  let ?vec = "embed_loop h 0 ?ws (replicate 64 0)"
  from assms have "?ws \<noteq> []" by simp
  then have "\<exists>j<64. 0 < ?vec ! j"
    by (rule embed_loop_positive) simp_all
  then obtain j where "j < 64" "0 < ?vec ! j" by blast
  then have pos: "0 < l2_norm ?vec"
    by (intro l2_norm_positive [of j]) (simp_all add: embed_loop_length)
  then have "embed_text h txt = map (\<lambda>x. x / l2_norm ?vec) ?vec"
    by (simp add: embed_text_eq)
  with pos show ?thesis by (simp add: l2_norm_normalised)
qed

lemma embed_text_no_tokens:
  assumes "split_ws (lower txt) = []"
  shows "embed_text h txt = replicate 64 0 \<and> l2_norm (embed_text h txt) = 0"
proof -
  have z: "l2_norm (replicate 64 0) = 0"
    by (simp add: l2_norm_def sum_list_replicate)
  with assms have "embed_text h txt = replicate 64 0"
    by (simp add: embed_text_eq)
  with z show ?thesis by simp
qed

lemma embed_loop_cong:
  "\<forall>w\<in>set ws. h w mod 64 = h' w mod 64 \<Longrightarrow> embed_loop h i ws vec = embed_loop h' i ws vec"
  by (induction ws arbitrary: i vec) (simp_all add: Let_def)

lemma embed_text_cong:
  assumes "\<forall>w\<in>set (take 64 (split_ws (lower txt))). h w mod 64 = h' w mod 64"
  shows "embed_text h txt = embed_text h' txt"
  using embed_loop_cong [OF assms] by (simp add: embed_text_eq)

text \<open>
  Claim C8. Floats being exact reals and \<open>h\<close> standing for the MD5 number of a word:
  \<open>embed_text\<close> always returns 64 components. Before normalisation, component \<open>j\<close> is
  the sum of \<open>1 / (i + 1)\<close> over the positions \<open>i\<close> of the first 64 tokens whose hash is
  \<open>j\<close> modulo 64. When the text has a token, that is a character that is not white
  space, the result has L2 norm 1; when it has none, the result is the zero vector, of
  norm 0. The result is a function of the text and of the hashes of its first 64 tokens
  modulo 64, and of nothing else: equal texts give equal results.
\<close>

theorem C8_embed_text:
  "length (embed_text h txt) = 64
   \<and> (\<forall>j<64. embed_loop h 0 (take 64 (split_ws (lower txt))) (replicate 64 0) ! j
        = (\<Sum>(i, w)\<leftarrow>enumerate 0 (take 64 (split_ws (lower txt))).
             if h w mod 64 = j then 1 / real (i + 1) else 0))
   \<and> embed_text h txt =
       (if 0 < l2_norm (embed_loop h 0 (take 64 (split_ws (lower txt))) (replicate 64 0))
        then map (\<lambda>x. x / l2_norm (embed_loop h 0 (take 64 (split_ws (lower txt))) (replicate 64 0)))
               (embed_loop h 0 (take 64 (split_ws (lower txt))) (replicate 64 0))
        else embed_loop h 0 (take 64 (split_ws (lower txt))) (replicate 64 0))
   \<and> (split_ws (lower txt) \<noteq> [] \<longleftrightarrow> (\<exists>c\<in>set txt. \<not> is_space c))
   \<and> (split_ws (lower txt) \<noteq> [] \<longrightarrow> l2_norm (embed_text h txt) = 1)
   \<and> (split_ws (lower txt) = [] \<longrightarrow>
        embed_text h txt = replicate 64 0 \<and> l2_norm (embed_text h txt) = 0)
   \<and> ((\<forall>w\<in>set (take 64 (split_ws (lower txt))). h w mod 64 = h' w mod 64) \<longrightarrow>
        embed_text h txt = embed_text h' txt)
   \<and> (txt = txt' \<longrightarrow> embed_text h txt = embed_text h txt')"
proof (intro conjI allI impI)
  show "length (embed_text h txt) = 64" by (rule embed_text_length)
next
  fix j :: nat assume "j < 64"
  then have "embed_loop h 0 (take 64 (split_ws (lower txt))) (replicate 64 0) ! j
      = replicate 64 0 ! j + (\<Sum>(i, w)\<leftarrow>enumerate 0 (take 64 (split_ws (lower txt))).
             if h w mod 64 = j then 1 / real (i + 1) else 0)"
    by (intro embed_loop_weights) simp
  with \<open>j < 64\<close> show "embed_loop h 0 (take 64 (split_ws (lower txt))) (replicate 64 0) ! j
        = (\<Sum>(i, w)\<leftarrow>enumerate 0 (take 64 (split_ws (lower txt))).
             if h w mod 64 = j then 1 / real (i + 1) else 0)"
    by simp
next
  show "embed_text h txt =
       (if 0 < l2_norm (embed_loop h 0 (take 64 (split_ws (lower txt))) (replicate 64 0))
        then map (\<lambda>x. x / l2_norm (embed_loop h 0 (take 64 (split_ws (lower txt))) (replicate 64 0)))
               (embed_loop h 0 (take 64 (split_ws (lower txt))) (replicate 64 0))
        else embed_loop h 0 (take 64 (split_ws (lower txt))) (replicate 64 0))"
    by (rule embed_text_eq)
next
  show "split_ws (lower txt) \<noteq> [] \<longleftrightarrow> (\<exists>c\<in>set txt. \<not> is_space c)" by (rule tokens_iff)
next
  assume "split_ws (lower txt) \<noteq> []"
  then show "l2_norm (embed_text h txt) = 1" by (rule embed_text_unit)
next
  assume "split_ws (lower txt) = []"
  then show "embed_text h txt = replicate 64 0" using embed_text_no_tokens by blast
next
  assume "split_ws (lower txt) = []"
  then show "l2_norm (embed_text h txt) = 0" using embed_text_no_tokens by blast
next
  assume "\<forall>w\<in>set (take 64 (split_ws (lower txt))). h w mod 64 = h' w mod 64"
  then show "embed_text h txt = embed_text h' txt" by (rule embed_text_cong)
next
  assume "txt = txt'"
  then show "embed_text h txt = embed_text h txt'" by simp
qed

text \<open>
  The claim with the length of a word for its hash: \<open>Hit hit\<close> has the token \<open>hit\<close>
  twice, both at index 3, with weights 1 and 1/2, and the result is the unit vector of
  index 3, also with the hash that adds 64 to each length; a blank followed by a
  no-break space has no token and gives the zero vector; \<open>U+00C9\<close> is lowered to
  \<open>U+00E9\<close> and is a token.
\<close>

theorem C8_embed_text_witness:
  "split_ws (lower ''Hit hit'') = [''hit'', ''hit'']
   \<and> embed_loop length 0 (take 64 (split_ws (lower ''Hit hit''))) (replicate 64 0) ! 3 = 3 / 2
   \<and> length (embed_text length ''Hit hit'') = 64
   \<and> l2_norm (embed_text length ''Hit hit'') = 1
   \<and> embed_text (\<lambda>w. length w + 64) ''Hit hit'' = embed_text length ''Hit hit''
   \<and> split_ws (lower [CHR '' '', CHR 0xA0]) = []
   \<and> embed_text length [CHR '' '', CHR 0xA0] = replicate 64 0
   \<and> l2_norm (embed_text length [CHR '' '', CHR 0xA0]) = 0
   \<and> split_ws (lower [CHR 0xC9]) = [[CHR 0xE9]]"
proof -
  have t: "split_ws (lower ''Hit hit'') = [''hit'', ''hit'']" by code_simp
  have e: "split_ws (lower [CHR '' '', CHR 0xA0]) = []" by code_simp
  have l: "split_ws (lower [CHR 0xC9]) = [[CHR 0xE9]]" by code_simp
  have "\<forall>w\<in>set (take 64 (split_ws (lower ''Hit hit''))). (length w + 64) mod 64 = length w mod 64"
    by simp
  with C8_embed_text [of "\<lambda>w. length w + 64" "''Hit hit''" length "''Hit hit''"]
  have c: "embed_text (\<lambda>w. length w + 64) ''Hit hit'' = embed_text length ''Hit hit''"
    by blast
  have "(3::nat) < 64" by simp
  with C8_embed_text [of length "''Hit hit''" length "''Hit hit''"]
  have "embed_loop length 0 (take 64 (split_ws (lower ''Hit hit''))) (replicate 64 0) ! 3
        = (\<Sum>(i, w)\<leftarrow>enumerate 0 (take 64 (split_ws (lower ''Hit hit''))).
             if length w mod 64 = 3 then 1 / real (i + 1) else 0)"
    by blast
  then have w: "embed_loop length 0 (take 64 (split_ws (lower ''Hit hit''))) (replicate 64 0) ! 3 = 3 / 2"
    by (simp add: t)
  from t have ne: "split_ws (lower ''Hit hit'') \<noteq> []" by simp
  with C8_embed_text [of length "''Hit hit''" length "''Hit hit''"]
  have u: "length (embed_text length ''Hit hit'') = 64" "l2_norm (embed_text length ''Hit hit'') = 1"
    by blast+
  from e C8_embed_text [of length "[CHR '' '', CHR 0xA0]" length "[CHR '' '', CHR 0xA0]"]
  have z: "embed_text length [CHR '' '', CHR 0xA0] = replicate 64 0"
    "l2_norm (embed_text length [CHR '' '', CHR 0xA0]) = 0"
    by blast+
  from t w u c e z l show ?thesis by blast
qed

section \<open>The retry loop of the call layer\<close>

lemma acquire_result:
  "(\<exists>e. acquire rnd t keys = (Inl e, keys)) \<or> (\<exists>k. acquire rnd t keys = (Inr k, keys))"
proof (cases "fst (acquire rnd t keys)")
  case (Inl e)
  then have "acquire rnd t keys = (Inl e, keys)"
    using acquire_pool [of rnd t keys] by (simp add: prod_eq_iff)
  then show ?thesis by blast
next
  case (Inr k)
  then have "acquire rnd t keys = (Inr k, keys)"
    using acquire_pool [of rnd t keys] by (simp add: prod_eq_iff)
  then show ?thesis by blast
qed

lemma chat_loop_done: "chat_loop w 4 le s = (Inl (RetriesFailed 4 le), s)"
  by (simp add: chat_loop.simps [of w 4] MAX_RETRIES_def)

lemma step_pool:
  assumes "a < 4" "acquire (rounding w) (t_acquire w a) (pool s) = (Inl e, keys)"
  shows "chat_loop w a le s = (Inl (PoolError e), s\<lparr>pool := keys\<rparr>)"
  using assms by (simp add: chat_loop.simps [of w a] MAX_RETRIES_def)

lemma step_transient:
  assumes "a < 4" "acquire (rounding w) (t_acquire w a) (pool s) = (Inr k, keys)"
    "request w a = HTTPError st b" "transient st"
  shows "chat_loop w a le s = chat_loop w (Suc a) (Some (HTTPError st b))
           (s\<lparr>sent := sent s @ [a],
              pool := report_error (t_report w a) (alias_of k) st keys,
              slept := slept s @ [BASE_DELAY * 2 ^ a + jitter w a]\<rparr>)"
  using assms by (simp add: chat_loop.simps [of w a] MAX_RETRIES_def Let_def)

lemma step_fatal:
  assumes "a < 4" "acquire (rounding w) (t_acquire w a) (pool s) = (Inr k, keys)"
    "request w a = HTTPError st b" "\<not> transient st"
  shows "chat_loop w a le s = (Inl (ApiError st b),
           s\<lparr>sent := sent s @ [a], pool := report_error (t_report w a) (alias_of k) st keys\<rparr>)"
  using assms by (simp add: chat_loop.simps [of w a] MAX_RETRIES_def Let_def)

lemma step_url:
  assumes "a < 4" "acquire (rounding w) (t_acquire w a) (pool s) = (Inr k, keys)"
    "request w a = URLError r"
  shows "chat_loop w a le s = chat_loop w (Suc a) (Some (URLError r))
           (s\<lparr>sent := sent s @ [a],
              pool := report_error (t_report w a) (alias_of k) 503 keys,
              slept := slept s @ [BASE_DELAY * 2 ^ a]\<rparr>)"
  using assms by (simp add: chat_loop.simps [of w a] MAX_RETRIES_def Let_def)

lemma step_response:
  assumes "a < 4" "acquire (rounding w) (t_acquire w a) (pool s) = (Inr k, keys)"
    "request w a = Response ti tout tx mdl"
  shows "chat_loop w a le s =
           (Inr \<lparr>resp_text = tx, resp_tokens_in = ti, resp_tokens_out = tout, resp_model = mdl,
                 resp_key_alias = alias_of k, resp_latency_ms = latency w a\<rparr>,
            s\<lparr>sent := sent s @ [a],
              pool := report_usage (t_report w a) (alias_of k) ti tout keys\<rparr>)"
  using assms by (simp add: chat_loop.simps [of w a] MAX_RETRIES_def Let_def)

lemma step_bad_json:
  assumes "a < 4" "acquire (rounding w) (t_acquire w a) (pool s) = (Inr k, keys)" "request w a = BadJson"
  shows "chat_loop w a le s = (Inl UnexpectedFormat, s\<lparr>pool := keys, sent := sent s @ [a]\<rparr>)"
  using assms by (simp add: chat_loop.simps [of w a] MAX_RETRIES_def Let_def)

lemma step_missing_text:
  assumes "a < 4" "acquire (rounding w) (t_acquire w a) (pool s) = (Inr k, keys)"
    "request w a = MissingText ti tout"
  shows "chat_loop w a le s =
           (Inl UnexpectedFormat,
            s\<lparr>sent := sent s @ [a],
              pool := report_usage (t_report w a) (alias_of k) ti tout keys\<rparr>)"
  using assms by (simp add: chat_loop.simps [of w a] MAX_RETRIES_def Let_def)

lemma slept_for_append:
  assumes "\<forall>i<length sl. slept_for w sl i" "slept_for w (sl @ [x]) (length sl)"
  shows "\<forall>i<length (sl @ [x]). slept_for w (sl @ [x]) i"
proof (intro allI impI)
  fix i assume "i < length (sl @ [x])"
  then consider "i < length sl" | "i = length sl" by fastforce
  then show "slept_for w (sl @ [x]) i"
  proof cases
    case 1
    with assms(1) have "slept_for w sl i" by blast
    with 1 show ?thesis by (simp add: slept_for_def nth_append)
  next
    case 2
    with assms(2) show ?thesis by simp
  qed
qed

lemma chat_loop_post:
  assumes "a \<le> 4" "sent s = [0..<a]" "length (slept s) = a"
    "\<forall>i<a. slept_for w (slept s) i"
    "le = (if a = 0 then None else Some (request w (a - 1)))"
  shows "call_post w (chat_loop w a le s)"
  using assms
proof (induction "4 - a" arbitrary: a le s)
  case 0
  then have a: "a = 4" by simp
  with "0.prems" show ?case
    by (simp add: chat_loop_done call_post_def Let_def)
next
  case (Suc n)
  then have a: "a < 4" by simp
  note inv = Suc.prems
  have next_inv: "call_post w (chat_loop w (Suc a) (Some (request w a))
      (s\<lparr>sent := sent s @ [a], pool := p, slept := slept s @ [x]\<rparr>))"
    if "slept_for w (slept s @ [x]) a" for p x
  proof (rule Suc.hyps(1))
    show "n = 4 - Suc a" using Suc.hyps(2) by simp
    show "Suc a \<le> 4" using a by simp
    show "sent (s\<lparr>sent := sent s @ [a], pool := p, slept := slept s @ [x]\<rparr>) = [0..<Suc a]"
      using inv(2) by simp
    show "length (slept (s\<lparr>sent := sent s @ [a], pool := p, slept := slept s @ [x]\<rparr>)) = Suc a"
      using inv(3) by simp
    show "\<forall>i<Suc a. slept_for w (slept (s\<lparr>sent := sent s @ [a], pool := p, slept := slept s @ [x]\<rparr>)) i"
      using slept_for_append [of "slept s" w x] inv(3,4) that by simp
    show "Some (request w a) = (if Suc a = 0 then None else Some (request w (Suc a - 1)))"
      by simp
  qed
  from acquire_result [of "rounding w" "t_acquire w a" "pool s"] show ?case
  proof (elim disjE exE)
    fix e assume acq: "acquire (rounding w) (t_acquire w a) (pool s) = (Inl e, pool s)"
    with a have "chat_loop w a le s = (Inl (PoolError e), s\<lparr>pool := pool s\<rparr>)"
      by (rule step_pool)
    with a inv(2-4) acq show ?thesis
      by (simp add: call_post_def Let_def)
  next
    fix k assume acq: "acquire (rounding w) (t_acquire w a) (pool s) = (Inr k, pool s)"
    show ?thesis
    proof (cases "request w a")
      case (Response ti tout tx mdl)
      from step_response [OF a acq this] a inv(2-4) Response show ?thesis
        by (simp add: call_post_def Let_def)
    next
      case BadJson
      from step_bad_json [OF a acq this] a inv(2-4) BadJson show ?thesis
        by (simp add: call_post_def Let_def)
    next
      case (MissingText ti tout)
      from step_missing_text [OF a acq this] a inv(2-4) MissingText show ?thesis
        by (simp add: call_post_def Let_def)
    next
      case (HTTPError st b)
      show ?thesis
      proof (cases "transient st")
        case True
        have "slept_for w (slept s @ [BASE_DELAY * 2 ^ a + jitter w a]) a"
          using HTTPError True nth_append_length [of "slept s" "BASE_DELAY * 2 ^ a + jitter w a" "[]"]
          by (simp add: slept_for_def inv(3))
        then have "call_post w (chat_loop w (Suc a) (Some (request w a))
            (s\<lparr>sent := sent s @ [a], pool := report_error (t_report w a) (alias_of k) st (pool s),
               slept := slept s @ [BASE_DELAY * 2 ^ a + jitter w a]\<rparr>))"
          by (rule next_inv)
        then show ?thesis
          using step_transient [OF a acq HTTPError True] HTTPError by simp
      next
        case False
        from step_fatal [OF a acq HTTPError False] a inv(2-4) HTTPError False show ?thesis
          by (simp add: call_post_def Let_def)
      qed
    next
      case (URLError r)
      have "slept_for w (slept s @ [BASE_DELAY * 2 ^ a]) a"
        using URLError nth_append_length [of "slept s" "BASE_DELAY * 2 ^ a" "[]"]
        by (simp add: slept_for_def inv(3))
      then have "call_post w (chat_loop w (Suc a) (Some (request w a))
          (s\<lparr>sent := sent s @ [a], pool := report_error (t_report w a) (alias_of k) 503 (pool s),
             slept := slept s @ [BASE_DELAY * 2 ^ a]\<rparr>))"
        by (rule next_inv)
      then show ?thesis
        using step_url [OF a acq URLError] URLError by simp
    qed
  qed
qed

lemma chat_full_post: "call_post w (chat_full w keys)"
  unfolding chat_full_def by (rule chat_loop_post) simp_all

lemma upt_four: "[0..<4] = [0, 1, 2, 3]"
  by (simp add: upt_rec)




end
